theory Spec2Isabelle
  imports
    Main
    "HOL-Library.Word"
    "HOL-Library.Multiset"
    "HOL-Library.Char_ord"
    "HOL-Library.List_Lexorder"
begin

unbundle bit_operations_syntax

section \<open>Bytes, errors and the external primitives\<close>

text \<open>
  A Go \<^verbatim>\<open>[]byte\<close> is a list of 8-bit words, read as a value: \<^verbatim>\<open>append(a, b...)\<close> is
  list concatenation.  SHA-256, Ed25519 and ChaCha20-Poly1305 are library calls of the
  program; every function that uses one takes it as an argument (\<open>H\<close> for
  \<^verbatim>\<open>sha256.Sum256\<close>, \<open>cseal\<close>/\<open>copen\<close> for the cipher's \<^verbatim>\<open>Seal\<close>/\<^verbatim>\<open>Open\<close>,
  \<open>edverify\<close> for \<^verbatim>\<open>ed25519.Verify\<close>), and the bytes drawn from \<^verbatim>\<open>rand.Reader\<close>
  and the clock reading \<^verbatim>\<open>time.Now().Unix()\<close> are arguments too.
\<close>

type_synonym byte = "8 word"
type_synonym bytes = "byte list"

datatype error =
    ErrMerkleEmpty
  | ErrMerkleProofFail
  | ErrMerkleIndexRange
  | ErrBatchTooLarge
  | ErrBatchTooShort
  | ErrBatchInvalidMagic
  | ErrBatchTruncated
  | ErrEOF
  | ErrUnexpectedEOF
  | ErrCiphertextTooShort
  | ErrDecryptionFailed
  | ErrInvalidKeySize
  | ErrRatchetExhausted
  | ErrInvalidGeneration
  | ErrRatchetKeySize
  | ErrHelloPeerIDMismatch
  | ErrHelloBadSignature
  | ErrHelloMissingKey
  | ErrHexInvalidByte
  | ErrHexLength
  | ErrPeerIDLength
  | ErrTicketExpired
  | ErrTicketInvalid
  | ErrTicketNotFound
  | ErrPanic

text \<open>\<^verbatim>\<open>copy(dst[:], src)\<close> into a zeroed array of \<open>n\<close> bytes.\<close>

definition copy_fixed :: "nat \<Rightarrow> bytes \<Rightarrow> bytes" where
  "copy_fixed n src = take n (src @ replicate n 0)"

section \<open>transfer/merkle.go\<close>

record MerkleTree =
  leaves :: "bytes list"
  nodes :: "bytes list"
  root :: bytes

record Proof =
  ChunkIndex :: int
  ChunkHash :: bytes
  Siblings :: "bytes list"
  IsLeft :: "bool list"

text \<open>
  \<^verbatim>\<open>n := 1; for n < len(chunkHashes) { n *= 2 }\<close>.  The loop variable starts at 1 and
  only doubles, so it is never 0; the test \<open>0 < n\<close> records that and makes the
  recursion total.
\<close>

function pad_loop :: "nat \<Rightarrow> nat \<Rightarrow> nat" where
  "pad_loop n len = (if n < len \<and> 0 < n then pad_loop (n * 2) len else n)"
  by pat_completeness auto
termination
  by (relation "measure (\<lambda>(n, len). len - n)") auto

declare pad_loop.simps [simp del]

text \<open>The padded leaves: the chunk hashes, then \<^verbatim>\<open>sha256.Sum256(nil)\<close>.\<close>

definition pad_leaves :: "(bytes \<Rightarrow> bytes) \<Rightarrow> bytes list \<Rightarrow> nat \<Rightarrow> bytes list" where
  "pad_leaves H chunkHashes n =
     map (\<lambda>i. if i < length chunkHashes then chunkHashes ! i else H []) [0..<n]"

text \<open>\<^verbatim>\<open>for i, leaf := range leaves { nodes[n-1+i] = leaf }\<close>\<close>

definition place_leaves :: "bytes list \<Rightarrow> nat \<Rightarrow> bytes list \<Rightarrow> bytes list" where
  "place_leaves ns n ls = fold (\<lambda>i acc. acc[n - 1 + i := ls ! i]) [0..<length ls] ns"

text \<open>
  \<^verbatim>\<open>for i := n - 2; i >= 0; i-- { nodes[i] = sha256(nodes[2i+1] ++ nodes[2i+2]) }\<close>:
  \<open>build_internal H ns k\<close> runs the iterations \<open>i = k - 1, ..., 0\<close>.
\<close>

fun build_internal :: "(bytes \<Rightarrow> bytes) \<Rightarrow> bytes list \<Rightarrow> nat \<Rightarrow> bytes list" where
  "build_internal H ns 0 = ns"
| "build_internal H ns (Suc i) =
     build_internal H (ns[i := H (ns ! (2 * i + 1) @ ns ! (2 * i + 2))]) i"

definition BuildMerkleTree :: "(bytes \<Rightarrow> bytes) \<Rightarrow> bytes list \<Rightarrow> error + MerkleTree" where
  "BuildMerkleTree H chunkHashes =
     (if length chunkHashes = 0 then Inl ErrMerkleEmpty
      else
        let n = pad_loop 1 (length chunkHashes);
            ls = pad_leaves H chunkHashes n;
            ns0 = replicate (2 * n - 1) [];
            ns1 = place_leaves ns0 n ls;
            ns2 = build_internal H ns1 (n - 1)
        in Inr \<lparr>leaves = ls, nodes = ns2, root = ns2 ! 0\<rparr>)"

text \<open>
  The walk from the leaf to the root.  Reading \<^verbatim>\<open>m.nodes[siblingIdx]\<close> outside the
  array is a run-time panic.
\<close>

function proof_loop ::
  "bytes list \<Rightarrow> nat \<Rightarrow> bytes list \<Rightarrow> bool list \<Rightarrow> error + (bytes list \<times> bool list)" where
  "proof_loop ns idx sibs lefts =
     (if 0 < idx then
        let siblingIdx = (if idx mod 2 = 1 then idx + 1 else idx - 1)
        in if siblingIdx < length ns
           then proof_loop ns ((idx - 1) div 2) (sibs @ [ns ! siblingIdx]) (lefts @ [idx mod 2 = 0])
           else Inl ErrPanic
      else Inr (sibs, lefts))"
  by pat_completeness auto
termination
  by (relation "measure (\<lambda>(ns, idx, sibs, lefts). idx)") auto

declare proof_loop.simps [simp del]

definition GenerateProof :: "MerkleTree \<Rightarrow> int \<Rightarrow> error + Proof" where
  "GenerateProof m chunkIndex =
     (let n = int (length (leaves m)) in
      if chunkIndex < 0 \<or> chunkIndex \<ge> n then Inl ErrMerkleIndexRange
      else
        case proof_loop (nodes m) (nat (n - 1 + chunkIndex)) [] [] of
          Inl e \<Rightarrow> Inl e
        | Inr (sibs, lefts) \<Rightarrow>
            Inr \<lparr>ChunkIndex = chunkIndex, ChunkHash = leaves m ! nat chunkIndex,
                 Siblings = sibs, IsLeft = lefts\<rparr>)"

text \<open>
  The fold of \<^verbatim>\<open>VerifyProof\<close>; \<^verbatim>\<open>proof.IsLeft[i]\<close> panics when \<^verbatim>\<open>IsLeft\<close> is
  shorter than \<^verbatim>\<open>Siblings\<close>.
\<close>

fun verify_loop :: "(bytes \<Rightarrow> bytes) \<Rightarrow> bytes \<Rightarrow> bytes list \<Rightarrow> bool list \<Rightarrow> bytes option" where
  "verify_loop H cur [] lefts = Some cur"
| "verify_loop H cur (s # sibs) [] = None"
| "verify_loop H cur (s # sibs) (l # lefts) =
     verify_loop H (H (if l then s @ cur else cur @ s)) sibs lefts"

fun bytesEqual_loop :: "bytes \<Rightarrow> bytes \<Rightarrow> bool" where
  "bytesEqual_loop [] bs = True"
| "bytesEqual_loop (a # as) [] = False"
| "bytesEqual_loop (a # as) (b # bs) = (if a = b then bytesEqual_loop as bs else False)"

definition bytesEqual :: "bytes \<Rightarrow> bytes \<Rightarrow> bool" where
  "bytesEqual a b = (if length a = length b then bytesEqual_loop a b else False)"

definition VerifyProof :: "(bytes \<Rightarrow> bytes) \<Rightarrow> Proof \<Rightarrow> bytes \<Rightarrow> error + unit" where
  "VerifyProof H p expectedRoot =
     (case verify_loop H (ChunkHash p) (Siblings p) (IsLeft p) of
        None \<Rightarrow> Inl ErrPanic
      | Some cur \<Rightarrow> if \<not> bytesEqual cur expectedRoot then Inl ErrMerkleProofFail else Inr ())"

definition HashChunk :: "(bytes \<Rightarrow> bytes) \<Rightarrow> bytes \<Rightarrow> bytes" where
  "HashChunk H data = H data"

text \<open>
  A stand-in for the hash in concrete runs: it is one-to-one, as a collision-free hash
  is on the inputs a run meets.
\<close>

definition tag_hash :: "bytes \<Rightarrow> bytes" where
  "tag_hash xs = 90 # xs"

section \<open>Big-endian integers (encoding/binary)\<close>

definition be16 :: "16 word \<Rightarrow> bytes" where
  "be16 w = [ucast (drop_bit 8 w), ucast w]"

definition be32 :: "32 word \<Rightarrow> bytes" where
  "be32 w = [ucast (drop_bit 24 w), ucast (drop_bit 16 w), ucast (drop_bit 8 w), ucast w]"

definition be64 :: "64 word \<Rightarrow> bytes" where
  "be64 w = [ucast (drop_bit 56 w), ucast (drop_bit 48 w), ucast (drop_bit 40 w),
             ucast (drop_bit 32 w), ucast (drop_bit 24 w), ucast (drop_bit 16 w),
             ucast (drop_bit 8 w), ucast w]"

text \<open>
  \<^verbatim>\<open>binary.BigEndian.Uint16/32/64(b)\<close> read the first bytes of \<open>b\<close>; every caller below
  checks the length first.
\<close>

definition Uint16 :: "bytes \<Rightarrow> 16 word" where
  "Uint16 b = push_bit 8 (ucast (b ! 0)) OR ucast (b ! 1)"

definition Uint32 :: "bytes \<Rightarrow> 32 word" where
  "Uint32 b = push_bit 24 (ucast (b ! 0)) OR push_bit 16 (ucast (b ! 1))
              OR push_bit 8 (ucast (b ! 2)) OR ucast (b ! 3)"


section \<open>transfer/batch.go\<close>

record CompressedChunk =
  CIndex :: int
  Compressed :: bool
  CData :: bytes
  OrigHash :: bytes

record Batch =
  Chunks :: "CompressedChunk list"

definition MaxBatchSize :: int where
  "MaxBatchSize = 4 * 1024 * 1024"

definition BatchMagic :: "32 word" where
  "BatchMagic = 0x49365042"

definition Size :: "Batch \<Rightarrow> int" where
  "Size b = fold (\<lambda>cc size. size + (4 + 1 + 2 + int (length (OrigHash cc)) + 4 + int (length (CData cc))))
              (Chunks b) (4 + 4)"

text \<open>One chunk record of the wire format, in the order \<^verbatim>\<open>Encode\<close> writes it.\<close>

definition encode_chunk :: "CompressedChunk \<Rightarrow> bytes" where
  "encode_chunk cc =
     be32 (word_of_int (CIndex cc)) @ [if Compressed cc then 1 else 0]
     @ be16 (word_of_nat (length (OrigHash cc))) @ OrigHash cc
     @ be32 (word_of_nat (length (CData cc))) @ CData cc"

definition Encode :: "Batch \<Rightarrow> error + bytes" where
  "Encode b =
     (let size = Size b in
      if size > MaxBatchSize then Inl ErrBatchTooLarge
      else Inr (be32 BatchMagic @ be32 (word_of_nat (length (Chunks b)))
                @ concat (map encode_chunk (Chunks b))))"

text \<open>
  The body of the loop of \<^verbatim>\<open>DecodeBatch\<close>: one record read at \<open>offset\<close>, with the
  three truncation checks in the order of the source; the result is the chunk and the
  offset after it.
\<close>

definition decode_record :: "bytes \<Rightarrow> int \<Rightarrow> error + (CompressedChunk \<times> int)" where
  "decode_record data offset =
     (if offset + 4 + 1 + 2 > int (length data) then Inl ErrBatchTruncated
      else
        let index = uint (Uint32 (drop (nat offset) data));
            offset1 = offset + 4;
            compressed = (data ! nat offset1 = 1);
            offset2 = offset1 + 1;
            hashLen = uint (Uint16 (drop (nat offset2) data));
            offset3 = offset2 + 2
        in if offset3 + hashLen + 4 > int (length data) then Inl ErrBatchTruncated
           else
             let hash = take (nat hashLen) (drop (nat offset3) data);
                 offset4 = offset3 + hashLen;
                 dataLen = uint (Uint32 (drop (nat offset4) data));
                 offset5 = offset4 + 4
             in if offset5 + dataLen > int (length data) then Inl ErrBatchTruncated
                else
                  let chunkData = take (nat dataLen) (drop (nat offset5) data);
                      offset6 = offset5 + dataLen
                  in Inr (\<lparr>CIndex = index, Compressed = compressed,
                            CData = chunkData, OrigHash = hash\<rparr>, offset6))"

text \<open>
  The loop itself; \<open>k\<close> is the number of records still to read (\<^verbatim>\<open>count - i\<close>).
\<close>

fun decode_loop :: "bytes \<Rightarrow> nat \<Rightarrow> int \<Rightarrow> CompressedChunk list \<Rightarrow> error + CompressedChunk list" where
  "decode_loop data 0 offset chunks = Inr chunks"
| "decode_loop data (Suc k) offset chunks =
     (case decode_record data offset of
        Inl e \<Rightarrow> Inl e
      | Inr (cc, offset') \<Rightarrow> decode_loop data k offset' (chunks @ [cc]))"

definition DecodeBatch :: "bytes \<Rightarrow> error + Batch" where
  "DecodeBatch data =
     (if length data < 8 then Inl ErrBatchTooShort
      else if Uint32 (take 4 data) \<noteq> BatchMagic then Inl ErrBatchInvalidMagic
      else
        let count = Uint32 (take 4 (drop 4 data)) in
        case decode_loop data (unat count) 8 [] of
          Inl e \<Rightarrow> Inl e
        | Inr chunks \<Rightarrow> Inr \<lparr>Chunks = chunks\<rparr>)"

text \<open>
  \<^verbatim>\<open>io.ReadFull(r, buf)\<close> on a reader that holds the bytes \<open>r\<close> and then ends: the bytes
  read and the rest, or \<^verbatim>\<open>io.EOF\<close> (nothing read) or \<^verbatim>\<open>io.ErrUnexpectedEOF\<close>.
\<close>

definition ReadFull :: "bytes \<Rightarrow> nat \<Rightarrow> error + (bytes \<times> bytes)" where
  "ReadFull r n =
     (if n \<le> length r then Inr (take n r, drop n r)
      else if r = [] then Inl ErrEOF else Inl ErrUnexpectedEOF)"

definition ReadBatch :: "bytes \<Rightarrow> error + Batch" where
  "ReadBatch r =
     (case ReadFull r 4 of
        Inl e \<Rightarrow> Inl e
      | Inr (lenBuf, r1) \<Rightarrow>
          let dataLen = Uint32 lenBuf in
          if uint dataLen > MaxBatchSize then Inl ErrBatchTooLarge
          else case ReadFull r1 (unat dataLen) of
                 Inl e \<Rightarrow> Inl e
               | Inr (data, r2) \<Rightarrow> DecodeBatch data)"

text \<open>\<^verbatim>\<open>WriteBatch\<close>: the bytes written to the stream.\<close>

definition WriteBatch :: "Batch \<Rightarrow> error + bytes" where
  "WriteBatch b =
     (case Encode b of
        Inl e \<Rightarrow> Inl e
      | Inr data \<Rightarrow> Inr (be32 (word_of_nat (length data)) @ data))"

text \<open>A batch of one uncompressed chunk whose serialized size is exactly 4 MiB.\<close>

definition full_batch :: Batch where
  "full_batch = \<lparr>Chunks = [\<lparr>CIndex = 0, Compressed = False,
                             CData = replicate 4194253 0, OrigHash = replicate 32 0\<rparr>]\<rparr>"

section \<open>transfer/chunker.go\<close>

record Chunk =
  Index :: int
  Data :: bytes
  Hash :: bytes

text \<open>
  The loop of \<^verbatim>\<open>Chunker.Split\<close>, with \<open>i\<close> the loop variable and \<open>chunks\<close> the slice
  built so far.  The result \<open>None\<close> stands for a run that does not return: with chunk
  size 0 the loop never ends, and with a negative chunk size the slice expression
  \<^verbatim>\<open>data[i:end]\<close> panics (\<open>end < i\<close>).
\<close>

partial_function (option) split_loop ::
  "(bytes \<Rightarrow> bytes) \<Rightarrow> int \<Rightarrow> bytes \<Rightarrow> int \<Rightarrow> Chunk list \<Rightarrow> Chunk list option" where
  "split_loop H chunkSize data i chunks =
     (if i < int (length data) then
        (if (if i + chunkSize > int (length data) then int (length data) else i + chunkSize) < i
         then None
         else split_loop H chunkSize data (i + chunkSize)
                (chunks @ [\<lparr>Index = int (length chunks),
                            Data = take (nat ((if i + chunkSize > int (length data)
                                               then int (length data) else i + chunkSize) - i))
                                     (drop (nat i) data),
                            Hash = HashChunk H
                                     (take (nat ((if i + chunkSize > int (length data)
                                                  then int (length data) else i + chunkSize) - i))
                                        (drop (nat i) data))\<rparr>]))
      else Some chunks)"

declare split_loop.simps [code]

definition Split :: "(bytes \<Rightarrow> bytes) \<Rightarrow> int \<Rightarrow> bytes \<Rightarrow> Chunk list option" where
  "Split H chunkSize data = split_loop H chunkSize data 0 []"

text \<open>
  The exchange sort of \<^verbatim>\<open>Reassemble\<close>: the inner loop over \<open>j\<close> and the outer loop over
  \<open>i\<close>, on the copy \<open>arr\<close> (\<^verbatim>\<open>sorted\<close> in the source).
\<close>

function sort_inner :: "Chunk list \<Rightarrow> nat \<Rightarrow> nat \<Rightarrow> Chunk list" where
  "sort_inner arr i j =
     (if j < length arr then
        sort_inner (if Index (arr ! j) < Index (arr ! i)
                    then arr[i := arr ! j, j := arr ! i] else arr) i (j + 1)
      else arr)"
  by pat_completeness auto
termination
  by (relation "measure (\<lambda>(arr, i, j). length arr - j)") auto

declare sort_inner.simps [simp del]

fun sort_outer :: "Chunk list \<Rightarrow> nat \<Rightarrow> nat \<Rightarrow> Chunk list" where
  "sort_outer arr i 0 = arr"
| "sort_outer arr i (Suc k) = sort_outer (sort_inner arr i (i + 1)) (i + 1) k"

definition Reassemble :: "Chunk list \<Rightarrow> bytes" where
  "Reassemble chunks = concat (map Data (sort_outer chunks 0 (length chunks)))"

text \<open>
  The invariant of the outer loop: every position below \<open>i\<close> holds a chunk whose index
  is at most that of every later position.
\<close>

definition sort_inv :: "Chunk list \<Rightarrow> nat \<Rightarrow> bool" where
  "sort_inv xs i \<longleftrightarrow> (\<forall>a b. a < b \<and> b < length xs \<and> a < i \<longrightarrow> Index (xs ! a) \<le> Index (xs ! b))"

section \<open>crypto/aead.go\<close>

text \<open>
  The cipher of \<^verbatim>\<open>chacha20poly1305.New(key)\<close> is given by its two operations, each with
  the key as first argument: \<open>cseal key nonce plaintext ad\<close> is the ciphertext followed
  by the tag, \<open>copen key nonce ciphertext ad\<close> is the plaintext, or \<open>None\<close> when
  authentication fails.
\<close>

type_synonym cipher_seal = "bytes \<Rightarrow> bytes \<Rightarrow> bytes \<Rightarrow> bytes \<Rightarrow> bytes"
type_synonym cipher_open = "bytes \<Rightarrow> bytes \<Rightarrow> bytes \<Rightarrow> bytes \<Rightarrow> bytes option"

record AEAD =
  key :: bytes
  prefix :: bytes
  seq :: "64 word"

definition KeySize :: nat where
  "KeySize = 32"

definition NonceSize :: nat where
  "NonceSize = 12"

definition Overhead :: nat where
  "Overhead = 16"

text \<open>\<open>rnd\<close> is what \<^verbatim>\<open>io.ReadFull(rand.Reader, a.prefix[:])\<close> reads.\<close>

definition NewAEAD :: "bytes \<Rightarrow> bytes \<Rightarrow> error + AEAD" where
  "NewAEAD k rnd =
     (if length k \<noteq> KeySize then Inl ErrInvalidKeySize
      else Inr \<lparr>key = k, prefix = copy_fixed 4 rnd, seq = 0\<rparr>)"

text \<open>\<^verbatim>\<open>a.seq.Add(1)\<close> is an addition on \<^verbatim>\<open>uint64\<close>: it wraps around.\<close>

definition nextNonce :: "AEAD \<Rightarrow> bytes \<times> AEAD" where
  "nextNonce a = (let s = seq a + 1 in (copy_fixed 4 (prefix a) @ be64 s, a\<lparr>seq := s\<rparr>))"

definition AEAD_Seal :: "cipher_seal \<Rightarrow> AEAD \<Rightarrow> bytes \<Rightarrow> bytes \<Rightarrow> bytes \<times> AEAD" where
  "AEAD_Seal cseal a plaintext additionalData =
     (let (nonce, a') = nextNonce a;
          ciphertext = cseal (key a) nonce plaintext additionalData
      in (nonce @ ciphertext, a'))"

definition AEAD_Open :: "cipher_open \<Rightarrow> AEAD \<Rightarrow> bytes \<Rightarrow> bytes \<Rightarrow> error + bytes" where
  "AEAD_Open copen a ciphertext additionalData =
     (if length ciphertext < NonceSize + Overhead then Inl ErrCiphertextTooShort
      else case copen (key a) (take NonceSize ciphertext) (drop NonceSize ciphertext) additionalData of
             None \<Rightarrow> Inl ErrDecryptionFailed
           | Some plaintext \<Rightarrow> Inr plaintext)"

text \<open>The nonces of \<open>n\<close> successive calls of \<^verbatim>\<open>Seal\<close> on one instance, in order.\<close>

fun nonce_run :: "AEAD \<Rightarrow> nat \<Rightarrow> bytes list" where
  "nonce_run a 0 = []"
| "nonce_run a (Suc n) = fst (nextNonce a) # nonce_run (snd (nextNonce a)) n"

section \<open>crypto/ratchet/ratchet.go\<close>

definition MaxGeneration :: "64 word" where
  "MaxGeneration = push_bit 32 1"

record Chain =
  chainKey :: bytes
  generation :: "64 word"

record EncryptedMessage =
  Generation :: "64 word"
  Ciphertext :: bytes

record Receiver =
  chains :: "64 word \<rightharpoonup> bytes"
  current :: bytes
  currentGen :: "64 word"
  maxSkip :: int

definition NewChain :: "bytes \<Rightarrow> error + Chain" where
  "NewChain initialKey =
     (if length initialKey \<noteq> 32 then Inl ErrRatchetKeySize
      else Inr \<lparr>chainKey = copy_fixed 32 initialKey, generation = 0\<rparr>)"

text \<open>
  \<open>deriveKeysStatic H chainKey = (nextChainKey, messageKey)\<close>; \<^verbatim>\<open>Chain.deriveKeys\<close> is
  the same computation on \<^verbatim>\<open>c.chainKey\<close>.
\<close>

definition deriveKeysStatic :: "(bytes \<Rightarrow> bytes) \<Rightarrow> bytes \<Rightarrow> bytes \<times> bytes" where
  "deriveKeysStatic H ck = (copy_fixed 32 (H (ck @ [2])), copy_fixed 32 (H (ck @ [1])))"

definition deriveKeys :: "(bytes \<Rightarrow> bytes) \<Rightarrow> Chain \<Rightarrow> bytes \<times> bytes" where
  "deriveKeys H c = (copy_fixed 32 (H (chainKey c @ [2])), copy_fixed 32 (H (chainKey c @ [1])))"

definition Step :: "(bytes \<Rightarrow> bytes) \<Rightarrow> bytes \<Rightarrow> Chain \<Rightarrow> (error + (AEAD \<times> 64 word)) \<times> Chain" where
  "Step H rnd c =
     (if generation c \<ge> MaxGeneration then (Inl ErrRatchetExhausted, c)
      else
        let (nextChain, msgKey) = deriveKeys H c;
            gen = generation c;
            c' = c\<lparr>chainKey := nextChain, generation := generation c + 1\<rparr>
        in case NewAEAD msgKey rnd of
             Inl e \<Rightarrow> (Inl e, c')
           | Inr aead \<Rightarrow> (Inr (aead, gen), c'))"

definition Seal ::
  "(bytes \<Rightarrow> bytes) \<Rightarrow> cipher_seal \<Rightarrow> bytes \<Rightarrow> Chain \<Rightarrow> bytes \<Rightarrow> bytes
     \<Rightarrow> (error + EncryptedMessage) \<times> Chain" where
  "Seal H cseal rnd c plaintext ad =
     (case Step H rnd c of
        (Inl e, c') \<Rightarrow> (Inl e, c')
      | (Inr (aead, gen), c') \<Rightarrow>
          (Inr \<lparr>Generation = gen, Ciphertext = fst (AEAD_Seal cseal aead plaintext ad)\<rparr>, c'))"

definition NewReceiver :: "bytes \<Rightarrow> int \<Rightarrow> error + Receiver" where
  "NewReceiver initialKey ms =
     (if length initialKey \<noteq> 32 then Inl ErrRatchetKeySize
      else Inr \<lparr>chains = Map.empty, current = copy_fixed 32 initialKey, currentGen = 0,
                maxSkip = ms\<rparr>)"

text \<open>
  \<^verbatim>\<open>for i := r.currentGen; i < gen; i++ { ... r.chains[i] = chainKey; chainKey = nextChain }\<close>:
  the result is the map and the chain key after the loop.
\<close>

function cache_loop ::
  "(bytes \<Rightarrow> bytes) \<Rightarrow> (64 word \<rightharpoonup> bytes) \<Rightarrow> bytes \<Rightarrow> 64 word \<Rightarrow> 64 word
     \<Rightarrow> (64 word \<rightharpoonup> bytes) \<times> bytes" where
  "cache_loop H ch ck i gen =
     (if i < gen then cache_loop H (ch(i \<mapsto> ck)) (fst (deriveKeysStatic H ck)) (i + 1) gen
      else (ch, ck))"
  by pat_completeness auto
termination
proof (relation "measure (\<lambda>(H, ch, ck, i, gen). unat gen - unat i)")
  show "wf (measure (\<lambda>(H, ch, ck, i, gen). unat gen - unat i))" by simp
next
  fix H :: "bytes \<Rightarrow> bytes" and ch :: "64 word \<rightharpoonup> bytes" and ck :: bytes and i gen :: "64 word"
  assume "i < gen"
  then have "unat i < unat gen" by (simp add: word_less_nat_alt)
  moreover have "unat gen < 2 ^ LENGTH(64)" by (rule unsigned_less)
  ultimately have "unat i + unat (1 :: 64 word) < 2 ^ LENGTH(64)" by simp
  then have "unat (i + 1) = unat i + 1" by (simp add: unat_add_lem [THEN iffD1])
  with \<open>unat i < unat gen\<close>
  show "((H, ch(i \<mapsto> ck), fst (deriveKeysStatic H ck), i + 1, gen), (H, ch, ck, i, gen))
                     \<in> measure (\<lambda>(H, ch, ck, i, gen). unat gen - unat i)"
    by simp
qed

declare cache_loop.simps [simp del]

text \<open>
  \<^verbatim>\<open>Receiver.Open\<close>, with the receiver after the call.  \<^verbatim>\<open>skip := int(gen - r.currentGen)\<close>
  converts the 64-bit difference to a signed 64-bit integer.
\<close>

definition Open ::
  "(bytes \<Rightarrow> bytes) \<Rightarrow> cipher_open \<Rightarrow> bytes \<Rightarrow> Receiver \<Rightarrow> EncryptedMessage \<Rightarrow> bytes
     \<Rightarrow> (error + bytes) \<times> Receiver" where
  "Open H copen rnd r msg ad =
     (let gen = Generation msg in
      if gen = currentGen r then
        (let (nextChain, msgKey) = deriveKeysStatic H (current r) in
         case NewAEAD msgKey rnd of
           Inl e \<Rightarrow> (Inl e, r)
         | Inr aead \<Rightarrow>
             (case AEAD_Open copen aead (Ciphertext msg) ad of
                Inl e \<Rightarrow> (Inl e, r)
              | Inr pt \<Rightarrow> (Inr pt, r\<lparr>current := nextChain, currentGen := currentGen r + 1\<rparr>)))
      else
        case chains r gen of
          Some cachedKey \<Rightarrow>
            (let (nextChain, msgKey) = deriveKeysStatic H cachedKey in
             case NewAEAD msgKey rnd of
               Inl e \<Rightarrow> (Inl e, r)
             | Inr aead \<Rightarrow>
                 (AEAD_Open copen aead (Ciphertext msg) ad, r\<lparr>chains := (chains r)(gen := None)\<rparr>))
        | None \<Rightarrow>
            if gen > currentGen r then
              (let skip = sint (gen - currentGen r) in
               if skip > maxSkip r then (Inl ErrInvalidGeneration, r)
               else
                 let (ch, chainKey) = cache_loop H (chains r) (current r) (currentGen r) gen;
                     (nextChain, msgKey) = deriveKeysStatic H chainKey;
                     r' = r\<lparr>chains := ch, current := nextChain, currentGen := gen + 1\<rparr>
                 in case NewAEAD msgKey rnd of
                      Inl e \<Rightarrow> (Inl e, r')
                    | Inr aead \<Rightarrow> (AEAD_Open copen aead (Ciphertext msg) ad, r'))
            else (Inl ErrInvalidGeneration, r))"

section \<open>A stand-in cipher for concrete runs\<close>

text \<open>
  \<open>toy_seal\<close> appends a 16-byte tag made of the key, the nonce and the associated data
  to the plaintext; \<open>toy_open\<close> checks the tag and returns the plaintext.  It has the
  interface and the overhead of the cipher and is used only to run the definitions on
  concrete inputs.
\<close>

definition toy_tag :: "bytes \<Rightarrow> bytes \<Rightarrow> bytes \<Rightarrow> bytes" where
  "toy_tag k n ad = copy_fixed 16 (k @ n @ ad)"

definition toy_seal :: cipher_seal where
  "toy_seal k n p ad = p @ toy_tag k n ad"

definition toy_open :: cipher_open where
  "toy_open k n c ad =
     (if 16 \<le> length c \<and> drop (length c - 16) c = toy_tag k n ad
      then Some (take (length c - 16) c) else None)"

text \<open>The chain key \<open>n\<close> ratchet steps after the chain key \<open>ck\<close>.\<close>

definition chain_iter :: "(bytes \<Rightarrow> bytes) \<Rightarrow> bytes \<Rightarrow> nat \<Rightarrow> bytes" where
  "chain_iter H ck n = ((\<lambda>k. fst (deriveKeysStatic H k)) ^^ n) ck"

text \<open>
  A sender seals the messages \<open>(plaintext, ad, rnd)\<close> of a list in order on one chain
  (\<open>rnd\<close> is the random prefix drawn for the message's cipher instance); a receiver opens the
  messages \<open>(msg, ad, rnd)\<close> of a list in order.
\<close>

fun seal_all ::
  "(bytes \<Rightarrow> bytes) \<Rightarrow> cipher_seal \<Rightarrow> Chain \<Rightarrow> (bytes \<times> bytes \<times> bytes) list
     \<Rightarrow> (error + EncryptedMessage) list" where
  "seal_all H cseal c [] = []"
| "seal_all H cseal c ((plaintext, ad, rnd) # ms) =
     fst (Seal H cseal rnd c plaintext ad)
       # seal_all H cseal (snd (Seal H cseal rnd c plaintext ad)) ms"

fun open_all ::
  "(bytes \<Rightarrow> bytes) \<Rightarrow> cipher_open \<Rightarrow> Receiver \<Rightarrow> (EncryptedMessage \<times> bytes \<times> bytes) list
     \<Rightarrow> (error + bytes) list" where
  "open_all H copen r [] = []"
| "open_all H copen r ((msg, ad, rnd) # xs) =
     fst (Open H copen rnd r msg ad) # open_all H copen (snd (Open H copen rnd r msg ad)) xs"

text \<open>
  The message that a chain started with key \<open>k\<close> seals at generation \<open>i\<close>: the message key
  is derived from the \<open>i\<close>-th chain key and the fresh cipher instance uses counter 1.
\<close>

definition sealed_msg ::
  "(bytes \<Rightarrow> bytes) \<Rightarrow> cipher_seal \<Rightarrow> bytes \<Rightarrow> nat \<Rightarrow> bytes \<Rightarrow> bytes \<Rightarrow> bytes \<Rightarrow> EncryptedMessage" where
  "sealed_msg H cseal k i plaintext ad rnd =
     \<lparr>Generation = of_nat i,
      Ciphertext = (copy_fixed 4 rnd @ be64 1)
         @ cseal (snd (deriveKeysStatic H (chain_iter H k i))) (copy_fixed 4 rnd @ be64 1) plaintext ad\<rparr>"

text \<open>
  The state of a receiver started with key \<open>k\<close> after it has opened the generations in
  \<open>D\<close>, the next expected generation being \<open>c\<close>: it holds the \<open>c\<close>-th chain key and has
  cached the chain keys of exactly the generations below \<open>c\<close> that it has not opened.
\<close>

definition recv_inv :: "(bytes \<Rightarrow> bytes) \<Rightarrow> bytes \<Rightarrow> nat set \<Rightarrow> nat \<Rightarrow> Receiver \<Rightarrow> bool" where
  "recv_inv H k D c r \<longleftrightarrow>
     currentGen r = of_nat c \<and> current r = chain_iter H k c
     \<and> chains r = (\<lambda>g. if unat g < c \<and> unat g \<notin> D then Some (chain_iter H k (unat g)) else None)
     \<and> maxSkip r = 1000 \<and> D \<subseteq> {..<c} \<and> c \<le> 2 ^ 32"

section \<open>Merkle tree: properties\<close>

lemma bytesEqual_loop_iff: "length a = length b \<Longrightarrow> bytesEqual_loop a b \<longleftrightarrow> a = b"
  by (induction a b rule: bytesEqual_loop.induct) auto

lemma bytesEqual_iff: "bytesEqual a b \<longleftrightarrow> a = b"
  using bytesEqual_loop_iff [of a b] by (auto simp: bytesEqual_def)

lemma build_single_leaf:
  "BuildMerkleTree H [leaf] = Inr \<lparr>leaves = [leaf], nodes = [leaf], root = leaf\<rparr>"
  by (simp add: BuildMerkleTree_def pad_loop.simps pad_leaves_def place_leaves_def Let_def)

text \<open>
  C6 (as the code has it).  A tree built from exactly one chunk hash has \<open>n = 1\<close>, which
  is already a power of two: no padding leaf is added and no internal node is hashed.  The
  tree has the single node \<open>leaf\<close>, and the root is the leaf hash itself.
\<close>

theorem C6_single_leaf_root_is_leaf:
  "\<exists>t. BuildMerkleTree H [leaf] = Inr t \<and> root t = leaf \<and> nodes t = [leaf] \<and> leaves t = [leaf]"
  by (simp add: build_single_leaf)

text \<open>
  C6 (as stated) fails: for the one-byte leaf \<open>[1]\<close> the root is \<open>[1]\<close>, not the hash of
  the leaf joined with the hash of the empty string.
\<close>

theorem C6_counterexample:
  "BuildMerkleTree tag_hash [[1]] = Inr \<lparr>leaves = [[1]], nodes = [[1]], root = [1]\<rparr>
   \<and> [1] \<noteq> tag_hash ([1] @ tag_hash [])"
  by (simp add: build_single_leaf tag_hash_def)

section \<open>Big-endian integers: properties\<close>

lemma Uint16_be16: "Uint16 (be16 w @ rest) = w"
proof (rule bit_word_eqI)
  fix n :: nat
  assume "n < LENGTH(16)"
  then consider "n < 8" | "8 \<le> n" "n < 16" by fastforce
  then show "bit (Uint16 (be16 w @ rest)) n = bit w n"
    by cases (auto simp add: Uint16_def be16_def bit_simps)
qed

lemma Uint32_be32: "Uint32 (be32 w @ rest) = w"
proof (rule bit_word_eqI)
  fix n :: nat
  assume "n < LENGTH(32)"
  then consider "n < 8" | "8 \<le> n" "n < 16" | "16 \<le> n" "n < 24" | "24 \<le> n" "n < 32"
    by fastforce
  then show "bit (Uint32 (be32 w @ rest)) n = bit w n"
    by cases (auto simp add: Uint32_def be32_def bit_simps)
qed


lemma length_be16 [simp]: "length (be16 w) = 2"
  by (simp add: be16_def)

lemma length_be32 [simp]: "length (be32 w) = 4"
  by (simp add: be32_def)

lemma length_be64 [simp]: "length (be64 w) = 8"
  by (simp add: be64_def)


section \<open>Batch size limit\<close>

lemma Size_full_batch: "Size full_batch = 4194304"
  by (simp add: Size_def full_batch_def)

lemma decode_record_not_too_large: "decode_record data off \<noteq> Inl ErrBatchTooLarge"
  by (simp add: decode_record_def Let_def)

lemma decode_loop_not_too_large: "decode_loop data k off acc \<noteq> Inl ErrBatchTooLarge"
  using decode_record_not_too_large
  by (induction k arbitrary: off acc) (auto split: sum.splits)

lemma DecodeBatch_not_too_large: "DecodeBatch data \<noteq> Inl ErrBatchTooLarge"
  using decode_loop_not_too_large [of data _ 8 "[]"]
  by (auto simp: DecodeBatch_def Let_def split: sum.splits)

lemma ReadFull_not_too_large: "ReadFull r n \<noteq> Inl ErrBatchTooLarge"
  by (simp add: ReadFull_def)

lemma ReadBatch_too_large_iff:
  "ReadBatch (b0 # b1 # b2 # b3 # rest) = Inl ErrBatchTooLarge
     \<longleftrightarrow> uint (Uint32 [b0, b1, b2, b3]) > MaxBatchSize"
  using DecodeBatch_not_too_large ReadFull_not_too_large
  by (auto simp: ReadBatch_def ReadFull_def Let_def split: sum.splits prod.splits)

text \<open>
  C9 (as the code has it).  \<^verbatim>\<open>Encode\<close> returns \<^verbatim>\<open>ErrBatchTooLarge\<close> exactly when the
  serialized size is strictly greater than \<^verbatim>\<open>MaxBatchSize\<close> (4 MiB), and \<^verbatim>\<open>ReadBatch\<close>
  returns \<^verbatim>\<open>ErrBatchTooLarge\<close> exactly when the four-byte length prefix is strictly
  greater than 4 MiB.  A size or a prefix of exactly 4 MiB passes both checks.
\<close>

theorem C9_too_large_iff_exceeds:
  "(Encode b = Inl ErrBatchTooLarge \<longleftrightarrow> Size b > 4 * 1024 * 1024)
   \<and> (ReadBatch (b0 # b1 # b2 # b3 # rest) = Inl ErrBatchTooLarge
        \<longleftrightarrow> uint (Uint32 [b0, b1, b2, b3]) > 4 * 1024 * 1024)"
  using ReadBatch_too_large_iff [of b0 b1 b2 b3 rest]
  by (simp add: Encode_def Let_def MaxBatchSize_def)

text \<open>
  C9 (as stated) fails at the boundary: the batch \<open>full_batch\<close> has serialized size exactly
  4 MiB and \<^verbatim>\<open>Encode\<close> does not reject it; a stream whose length prefix is exactly 4 MiB
  is not rejected as too large by \<^verbatim>\<open>ReadBatch\<close> either.
\<close>

theorem C9_counterexample:
  "Size full_batch = 4 * 1024 * 1024
   \<and> Encode full_batch \<noteq> Inl ErrBatchTooLarge
   \<and> uint (Uint32 [0, 64, 0, 0]) = 4 * 1024 * 1024
   \<and> ReadBatch [0, 64, 0, 0, 73, 54, 80, 66] \<noteq> Inl ErrBatchTooLarge"
proof -
  have "Encode full_batch \<noteq> Inl ErrBatchTooLarge"
    by (simp add: Encode_def Let_def Size_full_batch MaxBatchSize_def)
  moreover have "uint (Uint32 [0, 64, 0, 0]) = 4 * 1024 * 1024"
    by (simp add: Uint32_def)
  moreover from this have "ReadBatch [0, 64, 0, 0, 73, 54, 80, 66] \<noteq> Inl ErrBatchTooLarge"
    by (simp add: ReadBatch_too_large_iff MaxBatchSize_def)
  ultimately show ?thesis by (simp add: Size_full_batch)
qed

section \<open>Chunker: properties\<close>

lemma split_loop_spec:
  assumes "0 < cs" "0 \<le> i"
  shows "\<exists>new. split_loop H cs data i chunks = Some (chunks @ new)
           \<and> concat (map Data new) = drop (nat i) data
           \<and> map Index new = map int [length chunks ..< length chunks + length new]"
  using assms(2)
proof (induction "length data - nat i" arbitrary: i chunks rule: less_induct)
  case less
  show ?case
  proof (cases "i < int (length data)")
    case False
    then have "split_loop H cs data i chunks = Some (chunks @ [])"
      by (subst split_loop.simps) simp
    moreover from False have "drop (nat i) data = []" by simp
    ultimately show ?thesis by force
  next
    case True
    define e where "e = (if i + cs > int (length data) then int (length data) else i + cs)"
    define d where "d = take (nat (e - i)) (drop (nat i) data)"
    define c where "c = \<lparr>Index = int (length chunks), Data = d, Hash = HashChunk H d\<rparr>"
    have ei: "\<not> e < i" using True assms(1) by (simp add: e_def)
    have step: "split_loop H cs data i chunks = split_loop H cs data (i + cs) (chunks @ [c])"
      using True ei by (subst split_loop.simps) (simp add: e_def d_def c_def)
    have "length data - nat (i + cs) < length data - nat i"
      using True assms(1) less.prems by linarith
    moreover have "0 \<le> i + cs" using assms(1) less.prems by simp
    ultimately obtain new where new:
      "split_loop H cs data (i + cs) (chunks @ [c]) = Some ((chunks @ [c]) @ new)"
      "concat (map Data new) = drop (nat (i + cs)) data"
      "map Index new = map int [length (chunks @ [c]) ..< length (chunks @ [c]) + length new]"
      using less.hyps [of "i + cs" "chunks @ [c]"] by blast
    have nat_sum: "nat (i + cs) = nat i + nat cs"
      using assms(1) less.prems by (simp add: nat_add_distrib)
    have data: "d @ drop (nat (i + cs)) data = drop (nat i) data"
    proof (cases "i + cs > int (length data)")
      case True
      then have "e = int (length data)" by (simp add: e_def)
      then have "d = drop (nat i) data" using less.prems by (simp add: d_def)
      moreover from True have "drop (nat (i + cs)) data = []" by simp
      ultimately show ?thesis by simp
    next
      case False
      then have "e - i = cs" by (simp add: e_def)
      then have "d = take (nat cs) (drop (nat i) data)" by (simp add: d_def)
      moreover have "drop (nat (i + cs)) data = drop (nat cs) (drop (nat i) data)"
        unfolding nat_sum by (simp add: add.commute)
      ultimately show ?thesis by (metis append_take_drop_id)
    qed
    have idx: "map Index (c # new) = map int [length chunks ..< length chunks + length (c # new)]"
    proof -
      have "[length chunks ..< length chunks + length (c # new)]
              = length chunks # [length (chunks @ [c]) ..< length (chunks @ [c]) + length new]"
        by (subst upt_conv_Cons) simp_all
      then show ?thesis using new(3) by (simp add: c_def del: upt_Suc)
    qed
    have "split_loop H cs data i chunks = Some (chunks @ (c # new))"
      using step new(1) by simp
    moreover have "concat (map Data (c # new)) = drop (nat i) data"
      using new(2) data by (simp add: c_def)
    ultimately show ?thesis using idx by blast
  qed
qed

lemma Split_spec:
  assumes "0 < cs"
  shows "\<exists>chunks. Split H cs data = Some chunks \<and> concat (map Data chunks) = data
           \<and> map Index chunks = map int [0 ..< length chunks]"
  using split_loop_spec [OF assms, of 0 H data "[]"] by (simp add: Split_def)


lemma sort_inner_length [simp]: "length (sort_inner xs i j) = length xs"
  by (induction xs i j rule: sort_inner.induct) (subst sort_inner.simps, auto)

lemma sort_inner_mset: "i < length xs \<Longrightarrow> mset (sort_inner xs i j) = mset xs"
proof (induction xs i j rule: sort_inner.induct)
  case (1 arr i j)
  show ?case
  proof (cases "j < length arr")
    case False
    then show ?thesis by (subst sort_inner.simps) simp
  next
    case True
    let ?arr' = "if Index (arr ! j) < Index (arr ! i) then arr[i := arr ! j, j := arr ! i] else arr"
    have "mset ?arr' = mset arr"
      using True "1.prems" by (simp add: mset_swap)
    moreover have "mset (sort_inner ?arr' i (j + 1)) = mset ?arr'"
      using "1.IH" [OF True] "1.prems" by simp
    ultimately show ?thesis using True by (subst sort_inner.simps) simp
  qed
qed

lemma sort_inner_take: "i < j \<Longrightarrow> take i (sort_inner xs i j) = take i xs"
proof (induction xs i j rule: sort_inner.induct)
  case (1 arr i j)
  show ?case
  proof (cases "j < length arr")
    case False
    then show ?thesis by (subst sort_inner.simps) simp
  next
    case True
    let ?arr' = "if Index (arr ! j) < Index (arr ! i) then arr[i := arr ! j, j := arr ! i] else arr"
    have "take i ?arr' = take i arr"
      using "1.prems" by simp
    moreover have "take i (sort_inner ?arr' i (j + 1)) = take i ?arr'"
      using "1.IH" [OF True] "1.prems" by simp
    ultimately show ?thesis using True by (subst sort_inner.simps) simp
  qed
qed

lemma sort_inner_min:
  "i < j \<Longrightarrow> \<forall>k. i < k \<and> k < j \<and> k < length xs \<longrightarrow> Index (xs ! i) \<le> Index (xs ! k) \<Longrightarrow>
   i < k \<Longrightarrow> k < length xs \<Longrightarrow> Index (sort_inner xs i j ! i) \<le> Index (sort_inner xs i j ! k)"
proof (induction xs i j rule: sort_inner.induct)
  case (1 arr i j)
  show ?case
  proof (cases "j < length arr")
    case False
    then show ?thesis using "1.prems" by (subst (1 2) sort_inner.simps) simp
  next
    case True
    let ?arr' = "if Index (arr ! j) < Index (arr ! i) then arr[i := arr ! j, j := arr ! i] else arr"
    have len: "length ?arr' = length arr" by simp
    have inv: "\<forall>k. i < k \<and> k < j + 1 \<and> k < length ?arr' \<longrightarrow> Index (?arr' ! i) \<le> Index (?arr' ! k)"
    proof (intro allI impI)
      fix k assume k: "i < k \<and> k < j + 1 \<and> k < length ?arr'"
      show "Index (?arr' ! i) \<le> Index (?arr' ! k)"
      proof (cases "k = j")
        case True
        then show ?thesis using k "1.prems"(1) by (auto simp: nth_list_update)
      next
        case False
        then have "k < j" using k by simp
        then have "Index (arr ! i) \<le> Index (arr ! k)" using "1.prems"(2) k len by simp
        then show ?thesis using k \<open>k < j\<close> "1.prems"(1) by (auto simp: nth_list_update)
      qed
    qed
    have "Index (sort_inner ?arr' i (j + 1) ! i) \<le> Index (sort_inner ?arr' i (j + 1) ! k)"
      using "1.IH" [OF True _ inv] "1.prems" by simp
    then show ?thesis using True by (subst (1 2) sort_inner.simps) simp
  qed
qed

lemma in_set_drop_nth: "x \<in> set (drop i xs) \<longleftrightarrow> (\<exists>k. i \<le> k \<and> k < length xs \<and> xs ! k = x)"
proof
  assume "x \<in> set (drop i xs)"
  then obtain j where "j < length (drop i xs)" "drop i xs ! j = x"
    by (auto simp: in_set_conv_nth)
  then have "i \<le> i + j \<and> i + j < length xs \<and> xs ! (i + j) = x" by auto
  then show "\<exists>k. i \<le> k \<and> k < length xs \<and> xs ! k = x" by blast
next
  assume "\<exists>k. i \<le> k \<and> k < length xs \<and> xs ! k = x"
  then obtain k where k: "i \<le> k" "k < length xs" "xs ! k = x" by blast
  then have "k - i < length (drop i xs)" "drop i xs ! (k - i) = x" by auto
  then show "x \<in> set (drop i xs)" by (metis nth_mem)
qed

lemma sort_inner_drop_mset:
  assumes "i < length xs" "i < j"
  shows "mset (drop i (sort_inner xs i j)) = mset (drop i xs)"
proof -
  have "mset (take i (sort_inner xs i j)) + mset (drop i (sort_inner xs i j))
          = mset (take i xs) + mset (drop i xs)"
    using sort_inner_mset [OF assms(1), of j]
    by (metis append_take_drop_id mset_append)
  then show ?thesis using sort_inner_take [OF assms(2), of xs] by simp
qed

lemma sort_inner_inv:
  assumes "sort_inv xs i" "i < length xs"
  shows "sort_inv (sort_inner xs i (i + 1)) (i + 1)"
  unfolding sort_inv_def
proof (intro allI impI)
  let ?ys = "sort_inner xs i (i + 1)"
  fix a b assume ab: "a < b \<and> b < length ?ys \<and> a < i + 1"
  then have b: "b < length xs" by simp
  show "Index (?ys ! a) \<le> Index (?ys ! b)"
  proof (cases "a = i")
    case True
    then show ?thesis
      using sort_inner_min [of i "i + 1" xs b] ab b by simp
  next
    case False
    then have a: "a < i" using ab by simp
    have ya: "?ys ! a = xs ! a"
      using sort_inner_take [of i "i + 1" xs] a by (metis lessI add.commute plus_1_eq_Suc nth_take)
    show ?thesis
    proof (cases "b < i")
      case True
      have "?ys ! b = xs ! b"
        using sort_inner_take [of i "i + 1" xs] True by (metis lessI add.commute plus_1_eq_Suc nth_take)
      then show ?thesis using ya assms(1) ab b a by (simp add: sort_inv_def)
    next
      case False
      then have "?ys ! b \<in> set (drop i ?ys)"
        unfolding in_set_drop_nth using b by (intro exI [of _ b]) simp
      then have "?ys ! b \<in> set (drop i xs)"
        using sort_inner_drop_mset [OF assms(2), of "i + 1"] by (metis lessI add.commute plus_1_eq_Suc set_mset_mset)
      then obtain b' where b': "i \<le> b'" "b' < length xs" "?ys ! b = xs ! b'"
        by (auto simp: in_set_drop_nth)
      then show ?thesis using ya assms(1) a by (simp add: sort_inv_def)
    qed
  qed
qed

lemma sort_outer_spec:
  "sort_inv xs i \<Longrightarrow> i + k = length xs \<Longrightarrow>
   mset (sort_outer xs i k) = mset xs \<and> sort_inv (sort_outer xs i k) (length xs)
   \<and> length (sort_outer xs i k) = length xs"
proof (induction k arbitrary: xs i)
  case 0
  then show ?case by simp
next
  case (Suc k)
  let ?ys = "sort_inner xs i (i + 1)"
  have i: "i < length xs" using Suc.prems by simp
  have "sort_inv ?ys (i + 1)" using sort_inner_inv [OF Suc.prems(1) i] .
  moreover have "i + 1 + k = length ?ys" using Suc.prems by simp
  ultimately have "mset (sort_outer ?ys (i + 1) k) = mset ?ys
      \<and> sort_inv (sort_outer ?ys (i + 1) k) (length ?ys)
      \<and> length (sort_outer ?ys (i + 1) k) = length ?ys"
    using Suc.IH by blast
  then show ?case using sort_inner_mset [OF i, of "i + 1"] by simp
qed

lemma sort_outer_sorted:
  "mset (sort_outer xs 0 (length xs)) = mset xs \<and> sorted (map Index (sort_outer xs 0 (length xs)))"
proof -
  let ?ys = "sort_outer xs 0 (length xs)"
  have s: "mset ?ys = mset xs \<and> sort_inv ?ys (length xs) \<and> length ?ys = length xs"
    using sort_outer_spec [of xs 0 "length xs"] by (simp add: sort_inv_def)
  then have "\<forall>a b. a < b \<and> b < length ?ys \<longrightarrow> Index (?ys ! a) \<le> Index (?ys ! b)"
    by (auto simp: sort_inv_def)
  then have "sorted (map Index ?ys)"
    by (auto simp: sorted_iff_nth_mono_less)
  then show ?thesis using s by simp
qed

lemma sorted_by_index_unique:
  assumes "mset ys = mset xs" "sorted (map Index ys)" "sorted (map Index xs)" "distinct (map Index xs)"
  shows "ys = xs"
proof -
  have "mset (map Index ys) = mset (map Index xs)" using assms(1) by simp
  then have "map Index ys = map Index xs"
    using assms(2,3) by (metis properties_for_sort)
  moreover have "set ys = set xs" using assms(1) by (metis set_mset_mset)
  moreover have "inj_on Index (set xs)" using assms(4) by (simp add: distinct_map)
  ultimately show ?thesis by (simp add: inj_on_map_eq_map)
qed

lemma Reassemble_perm:
  assumes "mset ys = mset xs" "map Index xs = map int [0 ..< length xs]"
  shows "Reassemble ys = concat (map Data xs)"
proof -
  have "sorted (map Index xs)" "distinct (map Index xs)"
    using assms(2) by (simp_all add: sorted_map distinct_map inj_on_def)
  moreover have "mset (sort_outer ys 0 (length ys)) = mset xs" "sorted (map Index (sort_outer ys 0 (length ys)))"
    using sort_outer_sorted [of ys] assms(1) by simp_all
  ultimately have "sort_outer ys 0 (length ys) = xs"
    by (rule sorted_by_index_unique [rotated 2])
  then show ?thesis by (simp add: Reassemble_def)
qed

text \<open>
  C8.  For every byte string \<open>data\<close> and every chunk size greater than 0, \<^verbatim>\<open>Split\<close>
  returns, and \<^verbatim>\<open>Reassemble\<close> of its chunks is \<open>data\<close>, also when the chunks are
  presented in any order (any list with the same elements).  On empty input \<^verbatim>\<open>Split\<close>
  yields no chunk, and \<^verbatim>\<open>Reassemble\<close> of no chunk is empty.
\<close>

theorem C8_reassemble_split:
  assumes "0 < chunkSize"
  shows "(\<exists>chunks. Split H chunkSize data = Some chunks
            \<and> Reassemble chunks = data
            \<and> (\<forall>presented. mset presented = mset chunks \<longrightarrow> Reassemble presented = data))
         \<and> Split H chunkSize [] = Some []
         \<and> Reassemble [] = []"
proof -
  obtain chunks where c: "Split H chunkSize data = Some chunks" "concat (map Data chunks) = data"
      "map Index chunks = map int [0 ..< length chunks]"
    using Split_spec [OF assms] by blast
  have "\<forall>presented. mset presented = mset chunks \<longrightarrow> Reassemble presented = data"
    using Reassemble_perm [OF _ c(3)] c(2) by simp
  then have "\<exists>chunks. Split H chunkSize data = Some chunks
           \<and> Reassemble chunks = data
           \<and> (\<forall>presented. mset presented = mset chunks \<longrightarrow> Reassemble presented = data)"
    using c(1) by blast
  moreover have "Split H chunkSize [] = Some []"
    by (simp add: Split_def split_loop.simps)
  moreover have "Reassemble [] = []"
    by (simp add: Reassemble_def)
  ultimately show ?thesis by blast
qed

text \<open>
  A run of C8: five bytes split with chunk size 2 give three chunks; presented in the
  order 2, 0, 1 they reassemble to the five bytes.
\<close>

theorem C8_reassemble_split_witness:
  "(0::int) < 2
   \<and> Split tag_hash 2 [1, 2, 3, 4, 5]
       = Some [\<lparr>Index = 0, Data = [1, 2], Hash = [90, 1, 2]\<rparr>,
               \<lparr>Index = 1, Data = [3, 4], Hash = [90, 3, 4]\<rparr>,
               \<lparr>Index = 2, Data = [5], Hash = [90, 5]\<rparr>]
   \<and> Reassemble [\<lparr>Index = 2, Data = [5], Hash = [90, 5]\<rparr>,
                   \<lparr>Index = 0, Data = [1, 2], Hash = [90, 1, 2]\<rparr>,
                   \<lparr>Index = 1, Data = [3, 4], Hash = [90, 3, 4]\<rparr>] = [1, 2, 3, 4, 5]"
proof -
  have h: "(0::int) < 2" by simp
  have s: "Split tag_hash 2 [1, 2, 3, 4, 5]
       = Some [\<lparr>Index = 0, Data = [1, 2], Hash = [90, 1, 2]\<rparr>,
               \<lparr>Index = 1, Data = [3, 4], Hash = [90, 3, 4]\<rparr>,
               \<lparr>Index = 2, Data = [5], Hash = [90, 5]\<rparr>]"
    by (simp add: Split_def split_loop.simps HashChunk_def tag_hash_def)
  show ?thesis
    using h s C8_reassemble_split [OF h, of tag_hash "[1, 2, 3, 4, 5]"]
    by (auto simp: add_mset_commute)
qed

section \<open>AEAD nonces\<close>

lemma length_copy_fixed [simp]: "length (copy_fixed n xs) = n"
  by (simp add: copy_fixed_def)

lemma nonce_run_length [simp]: "length (nonce_run a n) = n"
  by (induction n arbitrary: a) simp_all









section \<open>Ratchet receiver\<close>

lemma NewAEAD_derived [simp]:
  "NewAEAD (snd (deriveKeysStatic H ck)) rnd
     = Inr \<lparr>key = snd (deriveKeysStatic H ck), prefix = copy_fixed 4 rnd, seq = 0\<rparr>"
  by (simp add: NewAEAD_def deriveKeysStatic_def KeySize_def)

lemma AEAD_Open_not_invalid_generation:
  "AEAD_Open copen a c ad \<noteq> Inl ErrInvalidGeneration"
  by (simp add: AEAD_Open_def split: option.splits)

lemma Open_skip_too_large:
  "currentGen r < Generation msg \<Longrightarrow> chains r (Generation msg) = None
   \<Longrightarrow> sint (Generation msg - currentGen r) > maxSkip r
   \<Longrightarrow> Open H copen rnd r msg ad = (Inl ErrInvalidGeneration, r)"
  by (auto simp: Open_def Let_def)

text \<open>
  C3 at the failing input: a fresh receiver with \<^verbatim>\<open>maxSkip = 1000\<close> at generation 0 and a
  message of generation \<open>2^63\<close>.  The difference \<open>2^63\<close> is greater than 1000, but as a
  signed 64-bit integer it is negative, the test \<^verbatim>\<open>skip > r.maxSkip\<close> is false, and the
  call goes on to the skip loop and to the cipher; its error is not
  \<^verbatim>\<open>ErrInvalidGeneration\<close>, and the receiver is left at generation \<open>2^63 + 1\<close>.
\<close>

theorem C3_failing_input:
  "fst (Open H copen rnd \<lparr>chains = Map.empty, current = k, currentGen = 0, maxSkip = 1000\<rparr>
          \<lparr>Generation = 9223372036854775808, Ciphertext = []\<rparr> ad) = Inl ErrCiphertextTooShort
   \<and> currentGen (snd (Open H copen rnd \<lparr>chains = Map.empty, current = k, currentGen = 0, maxSkip = 1000\<rparr>
          \<lparr>Generation = 9223372036854775808, Ciphertext = []\<rparr> ad)) = 9223372036854775809
   \<and> unat (9223372036854775808 - 0 :: 64 word) > 1000
   \<and> sint (9223372036854775808 - 0 :: 64 word) < 0"
  by (simp add: Open_def Let_def split_beta AEAD_Open_def NonceSize_def Overhead_def)

lemma chain_iter_0 [simp]: "chain_iter H ck 0 = ck"
  by (simp add: chain_iter_def)

lemma chain_iter_Suc: "chain_iter H ck (Suc n) = chain_iter H (fst (deriveKeysStatic H ck)) n"
  unfolding chain_iter_def by (metis comp_apply funpow_Suc_right)

lemma chain_iter_Suc': "chain_iter H ck (Suc n) = fst (deriveKeysStatic H (chain_iter H ck n))"
  by (simp add: chain_iter_def)

lemma unat_succ_less: "(i :: 64 word) < gen \<Longrightarrow> unat (i + 1) = unat i + 1"
proof -
  assume "i < gen"
  then have "unat i < unat gen" by (simp add: word_less_nat_alt)
  moreover have "unat gen < 2 ^ LENGTH(64)" by (rule unsigned_less)
  ultimately have "unat i + unat (1 :: 64 word) < 2 ^ LENGTH(64)" by simp
  then show ?thesis by (simp add: unat_add_lem [THEN iffD1])
qed

lemma cache_loop_spec:
  "i \<le> gen \<Longrightarrow>
   cache_loop H ch ck i gen
     = ((\<lambda>g. if i \<le> g \<and> g < gen then Some (chain_iter H ck (unat g - unat i)) else ch g),
        chain_iter H ck (unat gen - unat i))"
proof (induction H ch ck i gen rule: cache_loop.induct)
  case (1 H ch ck i gen)
  show ?case
  proof (cases "i < gen")
    case False
    then have "i = gen" using "1.prems" by simp
    then have "(\<lambda>g. if i \<le> g \<and> g < gen then Some (chain_iter H ck (unat g - unat i)) else ch g) = ch"
      by (intro ext) auto
    then show ?thesis using \<open>i = gen\<close> by (subst cache_loop.simps) simp
  next
    case True
    have s: "unat (i + 1) = unat i + 1" using True by (rule unat_succ_less)
    have le: "i + 1 \<le> gen" using True by (simp add: inc_le)
    have ih: "cache_loop H (ch(i \<mapsto> ck)) (fst (deriveKeysStatic H ck)) (i + 1) gen
        = ((\<lambda>g. if i + 1 \<le> g \<and> g < gen
                 then Some (chain_iter H (fst (deriveKeysStatic H ck)) (unat g - unat (i + 1)))
                 else (ch(i \<mapsto> ck)) g),
           chain_iter H (fst (deriveKeysStatic H ck)) (unat gen - unat (i + 1)))"
      using "1.IH" [OF True le] .
    have m: "(if i + 1 \<le> g \<and> g < gen
                 then Some (chain_iter H (fst (deriveKeysStatic H ck)) (unat g - unat (i + 1)))
                 else (ch(i \<mapsto> ck)) g)
           = (if i \<le> g \<and> g < gen then Some (chain_iter H ck (unat g - unat i)) else ch g)" for g
    proof (cases "g = i")
      case True
      then show ?thesis using \<open>i < gen\<close> s by (simp add: word_le_nat_alt)
    next
      case False
      show ?thesis
      proof (cases "i \<le> g \<and> g < gen")
        case True
        then have "i < g" using \<open>g \<noteq> i\<close> by auto
        then have "unat i < unat g" by (simp add: word_less_nat_alt)
        then have "unat g - unat i = Suc (unat g - unat (i + 1))" using s by simp
        moreover have "i + 1 \<le> g" using \<open>unat i < unat g\<close> s by (simp add: word_le_nat_alt)
        ultimately show ?thesis using True by (simp add: chain_iter_Suc)
      next
        case False
        then have "\<not> (i + 1 \<le> g \<and> g < gen)" using s by (auto simp: word_le_nat_alt)
        then show ?thesis using False \<open>g \<noteq> i\<close> by auto
      qed
    qed
    have k: "chain_iter H (fst (deriveKeysStatic H ck)) (unat gen - unat (i + 1))
           = chain_iter H ck (unat gen - unat i)"
    proof -
      have "unat i < unat gen" using True by (simp add: word_less_nat_alt)
      then have "unat gen - unat i = Suc (unat gen - unat (i + 1))" using s by simp
      then show ?thesis by (simp add: chain_iter_Suc)
    qed
    show ?thesis
      using True by (subst cache_loop.simps) (simp add: ih m k)
  qed
qed

lemma Open_future:
  assumes "currentGen r < Generation msg" "chains r (Generation msg) = None"
      and "\<not> sint (Generation msg - currentGen r) > maxSkip r"
  shows "Open H copen rnd r msg ad =
     (AEAD_Open copen \<lparr>key = snd (deriveKeysStatic H (chain_iter H (current r)
                                 (unat (Generation msg) - unat (currentGen r)))),
                       prefix = copy_fixed 4 rnd, seq = 0\<rparr> (Ciphertext msg) ad,
      r\<lparr>chains := (\<lambda>g. if currentGen r \<le> g \<and> g < Generation msg
                         then Some (chain_iter H (current r) (unat g - unat (currentGen r)))
                         else chains r g),
        current := fst (deriveKeysStatic H (chain_iter H (current r)
                                 (unat (Generation msg) - unat (currentGen r)))),
        currentGen := Generation msg + 1\<rparr>)"
proof -
  have "currentGen r \<le> Generation msg" using assms(1) by simp
  note cl = cache_loop_spec [OF this, of H "chains r" "current r"]
  have ne: "Generation msg \<noteq> currentGen r" using assms(1) by auto
  show ?thesis
    using assms ne by (simp add: Open_def Let_def cl split_beta)
qed

lemma Open_cached:
  assumes "Generation msg \<noteq> currentGen r" "chains r (Generation msg) = Some ck"
  shows "Open H copen rnd r msg ad =
     (AEAD_Open copen \<lparr>key = snd (deriveKeysStatic H ck), prefix = copy_fixed 4 rnd, seq = 0\<rparr>
        (Ciphertext msg) ad,
      r\<lparr>chains := (chains r)(Generation msg := None)\<rparr>)"
  using assms by (simp add: Open_def Let_def split_beta)

lemma Open_in_order:
  assumes "Generation msg = currentGen r"
  shows "Open H copen rnd r msg ad =
     (case AEAD_Open copen \<lparr>key = snd (deriveKeysStatic H (current r)), prefix = copy_fixed 4 rnd,
                              seq = 0\<rparr> (Ciphertext msg) ad of
        Inl e \<Rightarrow> (Inl e, r)
      | Inr pt \<Rightarrow> (Inr pt, r\<lparr>current := fst (deriveKeysStatic H (current r)),
                               currentGen := currentGen r + 1\<rparr>))"
  using assms by (simp add: Open_def Let_def split_beta)

lemma Open_past_unknown:
  assumes "Generation msg < currentGen r" "chains r (Generation msg) = None"
  shows "Open H copen rnd r msg ad = (Inl ErrInvalidGeneration, r)"
proof -
  have "Generation msg \<noteq> currentGen r" "\<not> currentGen r < Generation msg"
    using assms(1) by auto
  then show ?thesis using assms(2) by (simp add: Open_def Let_def)
qed

lemma below_max_succ:
  assumes "(gen :: 64 word) < MaxGeneration"
  shows "gen < gen + 1"
proof -
  have "unat gen < unat MaxGeneration" using assms by (simp add: word_less_nat_alt)
  then have "unat gen < 2 ^ 32" by (simp add: MaxGeneration_def)
  then have "unat gen + unat (1 :: 64 word) < 2 ^ LENGTH(64)" by simp
  then have "unat (gen + 1) = unat gen + 1" by (simp add: unat_add_lem [THEN iffD1])
  then show ?thesis by (simp add: word_less_nat_alt)
qed

text \<open>
  C10.  \<^verbatim>\<open>Receiver.Open\<close> changes the receiver before it decrypts.  When a message of a
  future generation \<open>gen\<close> within \<^verbatim>\<open>maxSkip\<close> fails authentication, the receiver is
  already at generation \<open>gen + 1\<close> and has cached exactly the chain keys of the
  generations from the old \<^verbatim>\<open>currentGen\<close> up to \<open>gen - 1\<close>, none for \<open>gen\<close>; when a
  message of a cached past generation fails authentication, its cache entry is already
  deleted.  In both cases any later message of generation \<open>gen\<close> (a genuine one is
  sealed by a chain, so \<open>gen < MaxGeneration\<close>) fails with \<^verbatim>\<open>ErrInvalidGeneration\<close>.
\<close>

theorem C10_open_not_atomic:
  assumes gen: "Generation msg = gen" "Generation msg' = gen" "gen < MaxGeneration"
      and fail: "fst (Open H copen rnd r msg ad) = Inl ErrDecryptionFailed"
      and scen: "(currentGen r < gen \<and> chains r gen = None \<and> sint (gen - currentGen r) \<le> maxSkip r)
                 \<or> (gen < currentGen r \<and> chains r gen \<noteq> None)"
  shows "chains (snd (Open H copen rnd r msg ad)) gen = None
       \<and> (currentGen r < gen \<longrightarrow>
            currentGen (snd (Open H copen rnd r msg ad)) = gen + 1
            \<and> (\<forall>g. chains (snd (Open H copen rnd r msg ad)) g
                     = (if currentGen r \<le> g \<and> g < gen
                        then Some (chain_iter H (current r) (unat g - unat (currentGen r)))
                        else chains r g)))
       \<and> (gen < currentGen r \<longrightarrow>
            snd (Open H copen rnd r msg ad) = r\<lparr>chains := (chains r)(gen := None)\<rparr>)
       \<and> Open H copen rnd' (snd (Open H copen rnd r msg ad)) msg' ad'
            = (Inl ErrInvalidGeneration, snd (Open H copen rnd r msg ad))"
  using scen
proof
  assume a: "currentGen r < gen \<and> chains r gen = None \<and> sint (gen - currentGen r) \<le> maxSkip r"
  let ?r' = "snd (Open H copen rnd r msg ad)"
  have o: "?r' = r\<lparr>chains := (\<lambda>g. if currentGen r \<le> g \<and> g < gen
                         then Some (chain_iter H (current r) (unat g - unat (currentGen r)))
                         else chains r g),
        current := fst (deriveKeysStatic H (chain_iter H (current r) (unat gen - unat (currentGen r)))),
        currentGen := gen + 1\<rparr>"
    using Open_future [of r msg H copen rnd ad] a gen(1) by simp
  have c: "chains ?r' gen = None" using a by (simp add: o)
  have "Generation msg' < currentGen ?r'"
    using below_max_succ [OF gen(3)] gen(2) by (simp add: o)
  then have "Open H copen rnd' ?r' msg' ad' = (Inl ErrInvalidGeneration, ?r')"
    using c gen(2) by (intro Open_past_unknown) simp_all
  moreover have "\<not> gen < currentGen r" using a by auto
  ultimately show ?thesis using c by (simp add: o)
next
  assume b: "gen < currentGen r \<and> chains r gen \<noteq> None"
  let ?r' = "snd (Open H copen rnd r msg ad)"
  obtain ck where ck: "chains r gen = Some ck" using b by auto
  have "Generation msg \<noteq> currentGen r" using b gen(1) by auto
  then have o: "?r' = r\<lparr>chains := (chains r)(gen := None)\<rparr>"
    using Open_cached [of msg r ck H copen rnd ad] ck gen(1) by simp
  have c: "chains ?r' gen = None" by (simp add: o)
  have "Generation msg' < currentGen ?r'" using b gen(2) by (simp add: o)
  then have "Open H copen rnd' ?r' msg' ad' = (Inl ErrInvalidGeneration, ?r')"
    using c gen(2) by (intro Open_past_unknown) simp_all
  moreover have "\<not> currentGen r < gen" using b by auto
  ultimately show ?thesis using c by (simp add: o)
qed


text \<open>
  A run of C10: a fresh receiver gets a forged message of generation 2, then any message
  of generation 2.
\<close>

theorem C10_open_not_atomic_witness:
  "(2 :: 64 word) < MaxGeneration
   \<and> fst (Open tag_hash toy_open []
             \<lparr>chains = Map.empty, current = replicate 32 0, currentGen = 0, maxSkip = 1000\<rparr>
             \<lparr>Generation = 2, Ciphertext = replicate 28 0\<rparr> []) = Inl ErrDecryptionFailed
   \<and> sint (2 - 0 :: 64 word) \<le> 1000
   \<and> currentGen (snd (Open tag_hash toy_open []
             \<lparr>chains = Map.empty, current = replicate 32 0, currentGen = 0, maxSkip = 1000\<rparr>
             \<lparr>Generation = 2, Ciphertext = replicate 28 0\<rparr> [])) = 3
   \<and> fst (Open tag_hash toy_open []
             (snd (Open tag_hash toy_open []
                \<lparr>chains = Map.empty, current = replicate 32 0, currentGen = 0, maxSkip = 1000\<rparr>
                \<lparr>Generation = 2, Ciphertext = replicate 28 0\<rparr> []))
             \<lparr>Generation = 2, Ciphertext = replicate 30 7\<rparr> []) = Inl ErrInvalidGeneration"
proof -
  let ?r = "\<lparr>chains = Map.empty, current = replicate 32 0, currentGen = 0, maxSkip = 1000\<rparr>"
  let ?m = "\<lparr>Generation = 2, Ciphertext = replicate 28 0\<rparr>"
  let ?m' = "\<lparr>Generation = 2, Ciphertext = replicate 30 7\<rparr>"
  have lt: "(2 :: 64 word) < MaxGeneration" by (simp add: MaxGeneration_def)
  have "replicate 16 (0 :: byte) = 0 # replicate 15 0"
    using replicate_Suc [of 15 "0 :: byte"] by simp
  then have ne: "replicate 16 (0 :: byte) \<noteq> 90 # xs" for xs
    by simp
  have o: "fst (Open tag_hash toy_open [] ?r ?m []) = Inl ErrDecryptionFailed"
    by (subst Open_future)
       (simp_all add: AEAD_Open_def NonceSize_def Overhead_def toy_open_def toy_tag_def
          deriveKeysStatic_def copy_fixed_def tag_hash_def ne)
  have scen: "(currentGen ?r < 2 \<and> chains ?r 2 = None \<and> sint (2 - currentGen ?r) \<le> maxSkip ?r)
              \<or> (2 < currentGen ?r \<and> chains ?r 2 \<noteq> None)"
    by simp
  show ?thesis
    using lt o C10_open_not_atomic [of ?m 2 ?m' tag_hash toy_open "[]" ?r "[]" "[]" "[]", OF _ _ lt o scen]
    by simp
qed

section \<open>Ratchet under reordering\<close>

lemma chain_iter_add: "chain_iter H (chain_iter H k m) n = chain_iter H k (m + n)"
proof -
  have "chain_iter H k (n + m) = chain_iter H (chain_iter H k m) n"
    by (simp add: chain_iter_def funpow_add)
  then show ?thesis by (simp add: add.commute)
qed

lemma unat_of_nat_small: "n \<le> 2 ^ 32 \<Longrightarrow> unat (of_nat n :: 64 word) = n"
  by (simp add: unat_of_nat)

lemma of_nat_less_small:
  "m \<le> 2 ^ 32 \<Longrightarrow> n \<le> 2 ^ 32 \<Longrightarrow> (of_nat m :: 64 word) < of_nat n \<longleftrightarrow> m < n"
  by (simp add: word_less_nat_alt unat_of_nat_small)

lemma of_nat_eq_small:
  "m \<le> 2 ^ 32 \<Longrightarrow> n \<le> 2 ^ 32 \<Longrightarrow> (of_nat m :: 64 word) = of_nat n \<longleftrightarrow> m = n"
  by (metis unat_of_nat_small)

lemma sint_diff_small:
  assumes "c \<le> g" "g \<le> 2 ^ 32"
  shows "sint (of_nat g - of_nat c :: 64 word) = int (g - c)"
proof -
  have d: "(of_nat g - of_nat c :: 64 word) = of_nat (g - c)"
    using assms(1) by (simp add: of_nat_diff)
  have "g - c \<le> 2 ^ 32" using assms by simp
  then have "int (g - c) \<le> 2 ^ 32" by (metis of_nat_le_iff of_nat_numeral of_nat_power)
  then have bound: "- (2 ^ 63) \<le> int (g - c)" "int (g - c) < 2 ^ 63" by simp_all
  have "sint (of_nat (g - c) :: 64 word) = sint (word_of_int (int (g - c)) :: 64 word)"
    by simp
  also have "\<dots> = signed_take_bit (LENGTH(64) - 1) (int (g - c))"
    by (rule sint_sbintrunc')
  also have "\<dots> = int (g - c)"
    using bound by (simp add: signed_take_bit_int_eq_self del: of_nat_diff)
  finally show ?thesis using d by simp
qed

lemma AEAD_Open_sealed:
  assumes corr: "\<And>key nonce p ad. copen key nonce (cseal key nonce p ad) ad = Some p"
      and len: "\<And>key nonce p ad. Overhead \<le> length (cseal key nonce p ad)"
      and "length nonce = NonceSize"
  shows "AEAD_Open copen \<lparr>key = K, prefix = pf, seq = s\<rparr> (nonce @ cseal K nonce p ad) ad = Inr p"
  using assms(3) len [of K nonce p ad] corr [of K nonce p ad]
  by (simp add: AEAD_Open_def)

lemma recv_step:
  assumes corr: "\<And>key nonce p ad. copen key nonce (cseal key nonce p ad) ad = Some p"
      and len: "\<And>key nonce p ad. Overhead \<le> length (cseal key nonce p ad)"
      and inv: "recv_inv H k D c r"
      and g: "g \<notin> D" "g < 2 ^ 32" "g \<le> c + 1000"
  shows "fst (Open H copen rnd' r (sealed_msg H cseal k g p ad rnd) ad) = Inr p
       \<and> recv_inv H k (insert g D) (max c (Suc g)) (snd (Open H copen rnd' r (sealed_msg H cseal k g p ad rnd) ad))"
proof -
  let ?msg = "sealed_msg H cseal k g p ad rnd"
  let ?nonce = "copy_fixed 4 rnd @ be64 1"
  have c32: "c \<le> 2 ^ 32" and g32: "g \<le> 2 ^ 32" using inv g(2) by (simp_all add: recv_inv_def)
  have cur: "currentGen r = of_nat c" and key: "current r = chain_iter H k c"
    and ch: "chains r = (\<lambda>g. if unat g < c \<and> unat g \<notin> D then Some (chain_iter H k (unat g)) else None)"
    and ms: "maxSkip r = 1000" and D: "D \<subseteq> {..<c}"
    using inv by (simp_all add: recv_inv_def)
  have gen: "Generation ?msg = of_nat g" by (simp add: sealed_msg_def)
  have ct: "Ciphertext ?msg = ?nonce @ cseal (snd (deriveKeysStatic H (chain_iter H k g))) ?nonce p ad"
    by (simp add: sealed_msg_def)
  have nl: "length ?nonce = NonceSize" by (simp add: NonceSize_def)
  have ug: "unat (of_nat g :: 64 word) = g" using g32 by (rule unat_of_nat_small)
  have aead: "AEAD_Open copen \<lparr>key = snd (deriveKeysStatic H (chain_iter H k g)), prefix = pf, seq = 0\<rparr>
                (Ciphertext ?msg) ad = Inr p" for pf
    unfolding ct using corr len nl by (rule AEAD_Open_sealed)
  consider (eq) "g = c" | (past) "g < c" | (future) "c < g" by linarith
  then show ?thesis
  proof cases
    case eq
    have o: "Open H copen rnd' r ?msg ad
        = (Inr p, r\<lparr>current := fst (deriveKeysStatic H (current r)), currentGen := currentGen r + 1\<rparr>)"
      using Open_in_order [of ?msg r H copen rnd' ad] aead [of "copy_fixed 4 rnd'"] eq gen cur key
      by simp
    have "chains r = (\<lambda>g'. if unat g' < max c (Suc g) \<and> unat g' \<notin> insert g D
                            then Some (chain_iter H k (unat g')) else None)"
      unfolding ch using eq by (intro ext) auto
    moreover have "Suc c \<le> 2 ^ 32" using eq g(2) by simp
    moreover have "insert g D \<subseteq> {..<Suc c}" using D eq by auto
    ultimately show ?thesis
      unfolding o using eq cur key ms
      by (simp add: recv_inv_def chain_iter_Suc')
  next
    case past
    have ne: "Generation ?msg \<noteq> currentGen r"
      using past gen cur of_nat_eq_small [OF g32 c32] by simp
    have cached: "chains r (Generation ?msg) = Some (chain_iter H k g)"
      using past g(1) by (simp add: ch gen ug)
    have o: "Open H copen rnd' r ?msg ad = (Inr p, r\<lparr>chains := (chains r)(Generation ?msg := None)\<rparr>)"
      using Open_cached [OF ne cached, of H copen rnd' ad] aead [of "copy_fixed 4 rnd'"] by simp
    have "(chains r)(Generation ?msg := None)
            = (\<lambda>g'. if unat g' < max c (Suc g) \<and> unat g' \<notin> insert g D
                     then Some (chain_iter H k (unat g')) else None)"
    proof (intro ext)
      fix g' :: "64 word"
      show "((chains r)(Generation ?msg := None)) g'
            = (if unat g' < max c (Suc g) \<and> unat g' \<notin> insert g D
               then Some (chain_iter H k (unat g')) else None)"
      proof (cases "g' = of_nat g")
        case True
        then show ?thesis by (simp add: gen ug)
      next
        case False
        then have "unat g' \<noteq> g" by auto
        then show ?thesis using False past by (simp add: gen ch max_def)
      qed
    qed
    moreover have "insert g D \<subseteq> {..<c}" using D past by auto
    moreover have "max c (Suc g) = c" using past by simp
    ultimately show ?thesis
      unfolding o using cur key ms c32 by (simp add: recv_inv_def)
  next
    case future
    have lt: "currentGen r < Generation ?msg"
      using future gen cur of_nat_less_small [OF c32 g32] by simp
    have uc: "unat (currentGen r) = c" using cur c32 by (simp add: unat_of_nat_small)
    have nocache: "chains r (Generation ?msg) = None"
      using future by (simp add: ch gen ug)
    have skip: "\<not> sint (Generation ?msg - currentGen r) > maxSkip r"
      using future g(3) sint_diff_small [of c g] g32 by (simp add: gen cur ms)
    have it: "chain_iter H (current r) (unat (Generation ?msg) - unat (currentGen r)) = chain_iter H k g"
      using future by (simp add: key gen ug uc chain_iter_add)
    have o: "Open H copen rnd' r ?msg ad =
       (Inr p,
        r\<lparr>chains := (\<lambda>g'. if currentGen r \<le> g' \<and> g' < Generation ?msg
                         then Some (chain_iter H (current r) (unat g' - unat (currentGen r)))
                         else chains r g'),
          current := fst (deriveKeysStatic H (chain_iter H k g)),
          currentGen := Generation ?msg + 1\<rparr>)"
      using Open_future [OF lt nocache skip, of H copen rnd' ad] aead [of "copy_fixed 4 rnd'"]
      unfolding it by simp
    have "(\<lambda>g'. if currentGen r \<le> g' \<and> g' < Generation ?msg
                         then Some (chain_iter H (current r) (unat g' - unat (currentGen r)))
                         else chains r g')
            = (\<lambda>g'. if unat g' < max c (Suc g) \<and> unat g' \<notin> insert g D
                     then Some (chain_iter H k (unat g')) else None)"
    proof (intro ext)
      fix g' :: "64 word"
      have a: "currentGen r \<le> g' \<longleftrightarrow> c \<le> unat g'" by (simp add: word_le_nat_alt uc)
      have b: "g' < Generation ?msg \<longleftrightarrow> unat g' < g" by (simp add: word_less_nat_alt gen ug)
      show "(if currentGen r \<le> g' \<and> g' < Generation ?msg
                         then Some (chain_iter H (current r) (unat g' - unat (currentGen r)))
                         else chains r g')
            = (if unat g' < max c (Suc g) \<and> unat g' \<notin> insert g D
                     then Some (chain_iter H k (unat g')) else None)"
        unfolding a b using future D by (auto simp: ch key uc chain_iter_add max_def)
    qed
    moreover have "insert g D \<subseteq> {..<Suc g}" using D future by auto
    moreover have "max c (Suc g) = Suc g" using future by simp
    moreover have "Suc g \<le> 2 ^ 32" using g(2) by simp
    ultimately show ?thesis
      unfolding o using ms by (simp add: recv_inv_def gen chain_iter_Suc')
  qed
qed

lemma length_seal_all [simp]: "length (seal_all H cseal c ms) = length ms"
  by (induction ms arbitrary: c) auto

lemma copy_fixed_idem [simp]: "copy_fixed n (copy_fixed n xs) = copy_fixed n xs"
  by (simp add: copy_fixed_def)

lemma Seal_below_max:
  assumes "unat (generation c) < 2 ^ 32"
  shows "Seal H cseal rnd c p ad =
     (Inr \<lparr>Generation = generation c,
           Ciphertext = (copy_fixed 4 rnd @ be64 1)
              @ cseal (snd (deriveKeysStatic H (chainKey c))) (copy_fixed 4 rnd @ be64 1) p ad\<rparr>,
      c\<lparr>chainKey := fst (deriveKeysStatic H (chainKey c)), generation := generation c + 1\<rparr>)"
proof -
  have "unat MaxGeneration = 2 ^ 32" by (simp add: MaxGeneration_def)
  then have "\<not> generation c \<ge> MaxGeneration" using assms by (simp add: word_le_nat_alt)
  moreover have "NewAEAD (copy_fixed 32 (H (chainKey c @ [1]))) rnd
      = Inr \<lparr>key = copy_fixed 32 (H (chainKey c @ [1])), prefix = copy_fixed 4 rnd, seq = 0\<rparr>"
    by (simp add: NewAEAD_def KeySize_def)
  ultimately show ?thesis
    by (simp add: Seal_def Step_def deriveKeys_def deriveKeysStatic_def Let_def
        AEAD_Seal_def nextNonce_def)
qed

lemma seal_all_nth:
  "unat (generation c) + length ms \<le> 2 ^ 32 \<Longrightarrow> j < length ms \<Longrightarrow>
   seal_all H cseal c ms ! j =
     Inr \<lparr>Generation = generation c + of_nat j,
          Ciphertext = (copy_fixed 4 (snd (snd (ms ! j))) @ be64 1)
             @ cseal (snd (deriveKeysStatic H (chain_iter H (chainKey c) j)))
                 (copy_fixed 4 (snd (snd (ms ! j))) @ be64 1) (fst (ms ! j)) (fst (snd (ms ! j)))\<rparr>"
proof (induction ms arbitrary: c j)
  case Nil
  then show ?case by simp
next
  case (Cons m ms)
  obtain p ad rnd where m: "m = (p, ad, rnd)" by (cases m) auto
  have lt: "unat (generation c) < 2 ^ 32" using Cons.prems by simp
  note s = Seal_below_max [OF lt, of H cseal rnd p ad]
  show ?case
  proof (cases j)
    case 0
    then show ?thesis by (simp add: m s)
  next
    case (Suc i)
    let ?c' = "c\<lparr>chainKey := fst (deriveKeysStatic H (chainKey c)), generation := generation c + 1\<rparr>"
    have "unat (generation c) + unat (1 :: 64 word) < 2 ^ LENGTH(64)" using lt by simp
    then have u: "unat (generation c + 1) = unat (generation c) + 1"
      by (simp add: unat_add_lem [THEN iffD1])
    have "unat (generation ?c') + length ms \<le> 2 ^ 32" using Cons.prems u by simp
    moreover have "i < length ms" using Cons.prems Suc by simp
    ultimately have "seal_all H cseal ?c' ms ! i =
     Inr \<lparr>Generation = generation ?c' + of_nat i,
          Ciphertext = (copy_fixed 4 (snd (snd (ms ! i))) @ be64 1)
             @ cseal (snd (deriveKeysStatic H (chain_iter H (chainKey ?c') i)))
                 (copy_fixed 4 (snd (snd (ms ! i))) @ be64 1) (fst (ms ! i)) (fst (snd (ms ! i)))\<rparr>"
      by (rule Cons.IH)
    then show ?thesis using Suc by (simp add: m s chain_iter_Suc add.assoc add.commute)
  qed
qed

lemma open_all_run:
  assumes corr: "\<And>key nonce p ad. copen key nonce (cseal key nonce p ad) ad = Some p"
      and len: "\<And>key nonce p ad. Overhead \<le> length (cseal key nonce p ad)"
  shows "recv_inv H k D c r \<Longrightarrow> distinct (map fst ds) \<Longrightarrow> fst ` set ds \<inter> D = {}
     \<Longrightarrow> \<forall>x \<in> set ds. fst x < 2 ^ 32
     \<Longrightarrow> \<forall>j < length ds. fst (ds ! j) \<le> card D + j + 1000
     \<Longrightarrow> open_all H copen r (map (\<lambda>x. (sealed_msg H cseal k (fst x) (P (fst x)) (A (fst x)) (R (fst x)),
                                       A (fst x), snd x)) ds)
          = map (\<lambda>x. Inr (P (fst x))) ds"
proof (induction ds arbitrary: D c r)
  case Nil
  then show ?case by simp
next
  case (Cons d ds)
  obtain g rnd' where d: "d = (g, rnd')" by (cases d) auto
  have D: "D \<subseteq> {..<c}" using Cons.prems(1) by (simp add: recv_inv_def)
  then have fin: "finite D" by (rule finite_subset) simp
  have "card D \<le> card {..<c}" using D by (intro card_mono) simp_all
  then have cd: "card D \<le> c" by simp
  have gD: "g \<notin> D" using Cons.prems(3) d by auto
  have g32: "g < 2 ^ 32" using Cons.prems(4) d by simp
  have "fst ((d # ds) ! 0) \<le> card D + 0 + 1000" using Cons.prems(5) by blast
  then have gc: "g \<le> c + 1000" using cd d by simp
  let ?o = "Open H copen rnd' r (sealed_msg H cseal k g (P g) (A g) (R g)) (A g)"
  have "fst ?o = Inr (P g) \<and> recv_inv H k (insert g D) (max c (Suc g)) (snd ?o)"
    by (rule recv_step [where copen = copen and cseal = cseal,
                        OF corr len Cons.prems(1) gD g32 gc])
  then have st: "fst ?o = Inr (P g)" "recv_inv H k (insert g D) (max c (Suc g)) (snd ?o)"
    by simp_all
  have "distinct (map fst ds)" using Cons.prems(2) by simp
  moreover have "fst ` set ds \<inter> insert g D = {}" using Cons.prems(2,3) d by auto
  moreover have "\<forall>x \<in> set ds. fst x < 2 ^ 32" using Cons.prems(4) by simp
  moreover have "\<forall>j < length ds. fst (ds ! j) \<le> card (insert g D) + j + 1000"
  proof (intro allI impI)
    fix j assume "j < length ds"
    then have "fst ((d # ds) ! Suc j) \<le> card D + Suc j + 1000" using Cons.prems(5) by (metis length_Cons Suc_less_eq)
    then show "fst (ds ! j) \<le> card (insert g D) + j + 1000" using fin gD by simp
  qed
  ultimately have "open_all H copen (snd ?o)
         (map (\<lambda>x. (sealed_msg H cseal k (fst x) (P (fst x)) (A (fst x)) (R (fst x)), A (fst x), snd x)) ds)
          = map (\<lambda>x. Inr (P (fst x))) ds"
    using Cons.IH [OF st(2)] by blast
  then show ?case using st(1) by (simp add: d)
qed

lemma copy_fixed_exact: "length xs = n \<Longrightarrow> copy_fixed n xs = xs"
  by (simp add: copy_fixed_def)

lemma toy_cipher_correct: "toy_open K n (toy_seal K n p ad) ad = Some p"
  by (simp add: toy_open_def toy_seal_def toy_tag_def)

lemma toy_cipher_overhead: "Overhead \<le> length (toy_seal K n p ad)"
  by (simp add: toy_seal_def toy_tag_def Overhead_def)

text \<open>
  C2.  A chain and a receiver are started with the same 32-byte key, the receiver with
  \<^verbatim>\<open>maxSkip = 1000\<close>.  The messages \<open>ms\<close> (at most \<open>2^32\<close>, the number a chain seals) are
  sealed in order, and delivered in the order \<open>ds\<close>: a permutation of the seal positions
  in which the message delivered at position \<open>j\<close> has a seal position at most 1000
  away from \<open>j\<close>.  The cipher opens what it sealed and its output is at least its
  overhead long.  Then every seal succeeds and every \<^verbatim>\<open>Open\<close> returns the plaintext of the
  message it is given.
\<close>

theorem C2_reordered_delivery:
  assumes key: "length k = 32"
      and corr: "\<And>key nonce p ad. copen key nonce (cseal key nonce p ad) ad = Some p"
      and len: "\<And>key nonce p ad. Overhead \<le> length (cseal key nonce p ad)"
      and n: "length ms \<le> 2 ^ 32"
      and perm: "mset (map fst ds) = mset [0..<length ms]"
      and near: "\<forall>j < length ds. fst (ds ! j) \<le> j + 1000 \<and> j \<le> fst (ds ! j) + 1000"
  shows "\<exists>c0 r0 sealed.
           NewChain k = Inr c0 \<and> NewReceiver k 1000 = Inr r0
           \<and> seal_all H cseal c0 ms = map Inr sealed
           \<and> open_all H copen r0 (map (\<lambda>d. (sealed ! fst d, fst (snd (ms ! fst d)), snd d)) ds)
               = map (\<lambda>d. Inr (fst (ms ! fst d))) ds"
proof -
  let ?c0 = "\<lparr>chainKey = k, generation = 0\<rparr>"
  let ?r0 = "\<lparr>chains = Map.empty, current = k, currentGen = 0, maxSkip = 1000\<rparr>"
  let ?P = "\<lambda>i. fst (ms ! i)" and ?A = "\<lambda>i. fst (snd (ms ! i))" and ?R = "\<lambda>i. snd (snd (ms ! i))"
  let ?sealed = "map (\<lambda>i. sealed_msg H cseal k i (?P i) (?A i) (?R i)) [0..<length ms]"
  have c0: "NewChain k = Inr ?c0" using key by (simp add: NewChain_def copy_fixed_exact)
  have r0: "NewReceiver k 1000 = Inr ?r0" using key by (simp add: NewReceiver_def copy_fixed_exact)
  have sealed: "seal_all H cseal ?c0 ms = map Inr ?sealed"
  proof (rule nth_equalityI)
    show "length (seal_all H cseal ?c0 ms) = length (map Inr ?sealed)" by simp
  next
    fix j assume "j < length (seal_all H cseal ?c0 ms)"
    then have j: "j < length ms" by simp
    have "unat (generation ?c0) + length ms \<le> 2 ^ 32" using n by simp
    from seal_all_nth [OF this j, of H cseal] j
    show "seal_all H cseal ?c0 ms ! j = map Inr ?sealed ! j"
      by (simp add: sealed_msg_def)
  qed
  have inv: "recv_inv H k {} 0 ?r0" by (simp add: recv_inv_def)
  have set: "set (map fst ds) = {0..<length ms}"
    using perm by (metis mset_eq_setD set_upt)
  have dist: "distinct (map fst ds)"
    using perm by (metis distinct_upt mset_eq_imp_distinct_iff)
  have small: "\<forall>x \<in> set ds. fst x < 2 ^ 32"
  proof
    fix x assume "x \<in> set ds"
    then have "fst x \<in> set (map fst ds)" by simp
    then have "fst x < length ms" unfolding set by simp
    then show "fst x < 2 ^ 32" using n by simp
  qed
  have bound: "\<forall>j < length ds. fst (ds ! j) \<le> card ({} :: nat set) + j + 1000"
    using near by simp
  have run: "open_all H copen ?r0
               (map (\<lambda>x. (sealed_msg H cseal k (fst x) (?P (fst x)) (?A (fst x)) (?R (fst x)),
                           ?A (fst x), snd x)) ds)
          = map (\<lambda>x. Inr (?P (fst x))) ds"
    by (rule open_all_run [where copen = copen and cseal = cseal, OF corr len inv dist _ small bound])
       simp
  have "map (\<lambda>d. (?sealed ! fst d, fst (snd (ms ! fst d)), snd d)) ds
      = map (\<lambda>x. (sealed_msg H cseal k (fst x) (?P (fst x)) (?A (fst x)) (?R (fst x)),
                           ?A (fst x), snd x)) ds"
  proof (rule map_cong [OF refl])
    fix d assume "d \<in> set ds"
    then have "fst d \<in> set (map fst ds)" by simp
    then have "fst d < length ms" unfolding set by simp
    then show "(?sealed ! fst d, fst (snd (ms ! fst d)), snd d)
      = (sealed_msg H cseal k (fst d) (?P (fst d)) (?A (fst d)) (?R (fst d)), ?A (fst d), snd d)"
      by simp
  qed
  then have "open_all H copen ?r0 (map (\<lambda>d. (?sealed ! fst d, fst (snd (ms ! fst d)), snd d)) ds)
               = map (\<lambda>d. Inr (fst (ms ! fst d))) ds"
    by (simp only: run)
  then show ?thesis using c0 r0 sealed by blast
qed

text \<open>
  A run of C2: the messages \<open>m0\<close>, \<open>m1\<close>, \<open>m2\<close> delivered in the order 2, 0, 1.
\<close>

theorem C2_reordered_delivery_witness:
  "length (replicate 32 (0 :: byte)) = 32
   \<and> (\<forall>key nonce p ad. toy_open key nonce (toy_seal key nonce p ad) ad = Some p)
   \<and> (\<forall>key nonce p ad. Overhead \<le> length (toy_seal key nonce p ad))
   \<and> (\<exists>sealed.
        seal_all tag_hash toy_seal \<lparr>chainKey = replicate 32 0, generation = 0\<rparr>
            [([109, 48], [], [1, 2, 3, 4]), ([109, 49], [], [5, 6, 7, 8]), ([109, 50], [], [9, 9, 9, 9])]
          = map Inr sealed
        \<and> open_all tag_hash toy_open
            \<lparr>chains = Map.empty, current = replicate 32 0, currentGen = 0, maxSkip = 1000\<rparr>
            [(sealed ! 2, [], []), (sealed ! 0, [], []), (sealed ! 1, [], [])]
          = [Inr [109, 50], Inr [109, 48], Inr [109, 49]])"
proof -
  let ?ms = "[([109, 48], [], [1, 2, 3, 4]), ([109, 49], [], [5, 6, 7, 8]), ([109, 50], [], [9, 9, 9, 9])]
               :: (bytes \<times> bytes \<times> bytes) list"
  let ?ds = "[(2, []), (0, []), (1, [])] :: (nat \<times> bytes) list"
  have k: "length (replicate 32 (0 :: byte)) = 32" by simp
  have n: "length ?ms \<le> 2 ^ 32" by simp
  have perm: "mset (map fst ?ds) = mset [0..<length ?ms]"
    by (simp add: upt_rec_numeral add_mset_commute)
  have near: "\<forall>j < length ?ds. fst (?ds ! j) \<le> j + 1000 \<and> j \<le> fst (?ds ! j) + 1000"
    by (simp add: nth_Cons split: nat.splits)
  show ?thesis
    using C2_reordered_delivery [where H = tag_hash and copen = toy_open and cseal = toy_seal, OF k toy_cipher_correct toy_cipher_overhead n perm near]
    by (simp add: toy_cipher_correct toy_cipher_overhead NewChain_def NewReceiver_def copy_fixed_exact)
qed

section \<open>Merkle proofs\<close>

lemma pad_loop_ge: "0 < n \<Longrightarrow> len \<le> pad_loop n len \<and> 0 < pad_loop n len"
proof (induction n len rule: pad_loop.induct)
  case (1 n len)
  show ?case
  proof (cases "n < len \<and> 0 < n")
    case True
    then show ?thesis using "1.IH" by (subst (1 2) pad_loop.simps) simp
  next
    case False
    then show ?thesis using "1.prems" by (subst (1 2) pad_loop.simps) simp
  qed
qed

lemma place_fold:
  "m \<le> length ls \<Longrightarrow> n - 1 + m \<le> length ns \<Longrightarrow>
   length (fold (\<lambda>i acc. acc[n - 1 + i := ls ! i]) [0..<m] ns) = length ns
   \<and> (\<forall>i < m. fold (\<lambda>i acc. acc[n - 1 + i := ls ! i]) [0..<m] ns ! (n - 1 + i) = ls ! i)"
proof (induction m)
  case 0
  then show ?case by simp
next
  case (Suc m)
  let ?f = "\<lambda>i acc. acc[n - 1 + i := ls ! i]"
  have ih: "length (fold ?f [0..<m] ns) = length ns"
       "\<forall>i < m. fold ?f [0..<m] ns ! (n - 1 + i) = ls ! i"
    using Suc by simp_all
  have e: "fold ?f [0..<Suc m] ns = (fold ?f [0..<m] ns)[n - 1 + m := ls ! m]"
    by simp
  show ?case unfolding e using ih Suc.prems by (auto simp: nth_list_update less_Suc_eq)
qed

lemma place_leaves_spec:
  assumes "length ls = n" "0 < n"
  shows "length (place_leaves (replicate (2 * n - 1) []) n ls) = 2 * n - 1"
    and "\<forall>i < n. place_leaves (replicate (2 * n - 1) []) n ls ! (n - 1 + i) = ls ! i"
  using place_fold [of n ls n "replicate (2 * n - 1) []"] assms
  by (simp_all add: place_leaves_def)

lemma build_internal_spec:
  "2 * k + 1 \<le> length ns \<Longrightarrow>
   length (build_internal H ns k) = length ns
   \<and> (\<forall>j. k \<le> j \<and> j < length ns \<longrightarrow> build_internal H ns k ! j = ns ! j)
   \<and> (\<forall>i < k. build_internal H ns k ! i
                = H (build_internal H ns k ! (2 * i + 1) @ build_internal H ns k ! (2 * i + 2)))"
proof (induction k arbitrary: ns)
  case 0
  then show ?case by simp
next
  case (Suc k)
  let ?ns' = "ns[k := H (ns ! (2 * k + 1) @ ns ! (2 * k + 2))]"
  let ?rs = "build_internal H ?ns' k"
  have l: "2 * k + 1 \<le> length ?ns'" using Suc.prems by simp
  have ih: "length ?rs = length ns"
     "\<forall>j. k \<le> j \<and> j < length ns \<longrightarrow> ?rs ! j = ?ns' ! j"
     "\<forall>i < k. ?rs ! i = H (?rs ! (2 * i + 1) @ ?rs ! (2 * i + 2))"
    using Suc.IH [OF l] by simp_all
  have a: "\<forall>j. Suc k \<le> j \<and> j < length ns \<longrightarrow> ?rs ! j = ns ! j"
    using ih(2) by simp
  have "?rs ! k = H (ns ! (2 * k + 1) @ ns ! (2 * k + 2))"
    using ih(2) Suc.prems by simp
  moreover have "?rs ! (2 * k + 1) = ns ! (2 * k + 1)" "?rs ! (2 * k + 2) = ns ! (2 * k + 2)"
    using a Suc.prems by simp_all
  ultimately have b: "?rs ! k = H (?rs ! (2 * k + 1) @ ?rs ! (2 * k + 2))" by simp
  have "\<forall>i < Suc k. ?rs ! i = H (?rs ! (2 * i + 1) @ ?rs ! (2 * i + 2))"
    using ih(3) b by (auto simp: less_Suc_eq)
  then show ?case using ih(1) a by simp
qed

lemma proof_loop_spec:
  "\<forall>p. 2 * p + 2 < length ns \<longrightarrow> ns ! p = H (ns ! (2 * p + 1) @ ns ! (2 * p + 2)) \<Longrightarrow>
   odd (length ns) \<Longrightarrow> idx < length ns \<Longrightarrow>
     \<exists>sibs' lefts'. proof_loop ns idx sibs lefts = Inr (sibs @ sibs', lefts @ lefts')
        \<and> verify_loop H (ns ! idx) sibs' lefts' = Some (ns ! 0)"
proof (induction ns idx sibs lefts rule: proof_loop.induct)
  case (1 ns idx sibs lefts)
  show ?case
  proof (cases "0 < idx")
    case False
    then have "proof_loop ns idx sibs lefts = Inr (sibs @ [], lefts @ [])"
      by (subst proof_loop.simps) simp
    moreover have "verify_loop H (ns ! idx) [] [] = Some (ns ! 0)" using False by simp
    ultimately show ?thesis by blast
  next
    case True
    define s where "s = (if idx mod 2 = 1 then idx + 1 else idx - 1)"
    define p where "p = (idx - 1) div 2"
    have sl: "s < length ns"
    proof (cases "idx mod 2 = 1")
      case True
      then have "odd idx" by presburger
      then have "even (idx + 1)" by simp
      then have "idx + 1 \<noteq> length ns" using "1.prems"(2) by metis
      then show ?thesis using True "1.prems"(3) by (simp add: s_def)
    next
      case False
      then show ?thesis using "1.prems"(3) by (simp add: s_def)
    qed
    have pl: "p < length ns" using "1.prems"(3) by (simp add: p_def)
    have step: "proof_loop ns idx sibs lefts
                  = proof_loop ns p (sibs @ [ns ! s]) (lefts @ [idx mod 2 = 0])"
      using True sl by (subst proof_loop.simps) (simp add: s_def p_def Let_def)
    obtain sibs'' lefts'' where ih:
      "proof_loop ns p (sibs @ [ns ! s]) (lefts @ [idx mod 2 = 0])
         = Inr ((sibs @ [ns ! s]) @ sibs'', (lefts @ [idx mod 2 = 0]) @ lefts'')"
      "verify_loop H (ns ! p) sibs'' lefts'' = Some (ns ! 0)"
      using "1.IH" [OF True s_def sl "1.prems"(1,2) pl [unfolded p_def]]
      unfolding p_def by blast
    have node: "H (if idx mod 2 = 0 then ns ! s @ ns ! idx else ns ! idx @ ns ! s) = ns ! p"
    proof (cases "idx mod 2 = 0")
      case True
      then have i: "idx = 2 * p + 2" using \<open>0 < idx\<close> unfolding p_def by presburger
      then have "s = 2 * p + 1" using True by (simp add: s_def)
      then show ?thesis using "1.prems"(1) i "1.prems"(3) True by simp
    next
      case False
      then have i: "idx = 2 * p + 1" unfolding p_def by presburger
      then have "s = 2 * p + 2" using False by (simp add: s_def)
      then show ?thesis using "1.prems"(1) i sl False by simp
    qed
    have "verify_loop H (ns ! idx) (ns ! s # sibs'') ((idx mod 2 = 0) # lefts'') = Some (ns ! 0)"
      using ih(2) node by simp
    moreover have "proof_loop ns idx sibs lefts
        = Inr (sibs @ (ns ! s # sibs''), lefts @ ((idx mod 2 = 0) # lefts''))"
      using step ih(1) by simp
    ultimately show ?thesis by blast
  qed
qed

end
